theory Spec2Isabelle
  imports Main "HOL-Library.Word" "HOL-Library.Sublist"
begin

section \<open>Data model (types.ts, constants.ts)\<close>

text \<open>
  A byte of an \<^verbatim>\<open>ArrayBuffer\<close> is an 8-bit word. A JavaScript string is modelled by the
  list of its code points (a lone surrogate is a code point of its own, a surrogate pair is
  the one supplementary code point it denotes); numeric cells are modelled by integers.
\<close>

type_synonym byte = "8 word"
type_synonym jsstring = "nat list"

text \<open>The enum \<^verbatim>\<open>ColumnType\<close> (INT = 2, STR = 7, STRID = 8); the names carry a prime
  because \<^verbatim>\<open>INT\<close> and \<^verbatim>\<open>STR\<close> are reserved by the term syntax.\<close>

datatype ColumnType = INT' | STR' | STRID'

fun columnTypeValue :: "ColumnType \<Rightarrow> nat" where
  "columnTypeValue INT' = 2"
| "columnTypeValue STR' = 7"
| "columnTypeValue STRID' = 8"

text \<open>The string-literal union \<^verbatim>\<open>'int' | 'str' | 'strID'\<close>.\<close>

datatype TypeName = TN_int | TN_str | TN_strID

record MbeColumn =
  type :: ColumnType
  typeName :: TypeName

text \<open>A cell is \<^verbatim>\<open>number | string\<close>.\<close>

datatype cell = Num int | Str jsstring

record MbeRow =
  id' :: jsstring
  cells :: "cell list"

record MbeSheet =
  name :: jsstring
  columns :: "MbeColumn list"
  rows :: "MbeRow list"
  parsedExpaAreaSizePerRow :: nat

record MbeFile =
  sheets :: "MbeSheet list"

definition EXPA_MAGIC_BYTES :: "byte list" where
  "EXPA_MAGIC_BYTES = [0x45, 0x58, 0x50, 0x41]"

definition CHNK_MAGIC_BYTES :: "byte list" where
  "CHNK_MAGIC_BYTES = [0x43, 0x48, 0x4E, 0x4B]"

section \<open>Platform functions used by the codec\<close>

subsection \<open>UTF-8 (TextEncoder, TextDecoder)\<close>

definition isSurrogate :: "nat \<Rightarrow> bool" where
  "isSurrogate cp = (0xD800 \<le> cp \<and> cp \<le> 0xDFFF)"

text \<open>\<^verbatim>\<open>TextEncoder.encode\<close> first replaces every lone surrogate by U+FFFD. (A number above
  0x10FFFF is no code point of any JavaScript string; it is treated alike to keep the
  function total.)\<close>

definition scalarValue :: "nat \<Rightarrow> nat" where
  "scalarValue cp = (if isSurrogate cp \<or> 0x10FFFF < cp then 0xFFFD else cp)"

definition utf8_bytes :: "nat \<Rightarrow> nat list" where
  "utf8_bytes c =
     (if c < 0x80 then [c]
      else if c < 0x800 then [0xC0 + c div 64, 0x80 + c mod 64]
      else if c < 0x10000 then
        [0xE0 + c div 64 div 64, 0x80 + (c div 64) mod 64, 0x80 + c mod 64]
      else [0xF0 + c div 64 div 64 div 64, 0x80 + (c div 64 div 64) mod 64,
            0x80 + (c div 64) mod 64, 0x80 + c mod 64])"

definition textEncoder_encode :: "jsstring \<Rightarrow> byte list" where
  "textEncoder_encode s = map of_nat (concat (map (\<lambda>cp. utf8_bytes (scalarValue cp)) s))"

text \<open>
  \<^verbatim>\<open>new TextDecoder('utf-8', { fatal: false, ignoreBOM: true }).decode\<close>: the UTF-8 decoder of
  the Encoding standard in replacement mode, keeping a byte order mark. The arguments after
  the byte list are the decoder's state: code point, bytes seen, bytes needed, lower and
  upper boundary. A byte that cannot continue a sequence emits U+FFFD and is then read
  again as the first byte of a sequence.
\<close>

fun utf8_decode :: "nat list \<Rightarrow> nat \<Rightarrow> nat \<Rightarrow> nat \<Rightarrow> nat \<Rightarrow> nat \<Rightarrow> jsstring" where
  "utf8_decode [] cp seen needed lower upper = (if needed \<noteq> 0 then [0xFFFD] else [])"
| "utf8_decode (b # bs) cp seen needed lower upper =
     (if needed \<noteq> 0 \<and> lower \<le> b \<and> b \<le> upper then
        (let cp' = cp * 64 + b mod 64 in
         if seen + 1 \<noteq> needed then utf8_decode bs cp' (seen + 1) needed 0x80 0xBF
         else cp' # utf8_decode bs 0 0 0 0x80 0xBF)
      else
        (if needed \<noteq> 0 then [0xFFFD] else []) @
        (if b \<le> 0x7F then b # utf8_decode bs 0 0 0 0x80 0xBF
         else if 0xC2 \<le> b \<and> b \<le> 0xDF then utf8_decode bs (b mod 32) 0 1 0x80 0xBF
         else if 0xE0 \<le> b \<and> b \<le> 0xEF then
           utf8_decode bs (b mod 16) 0 2 (if b = 0xE0 then 0xA0 else 0x80)
             (if b = 0xED then 0x9F else 0xBF)
         else if 0xF0 \<le> b \<and> b \<le> 0xF4 then
           utf8_decode bs (b mod 8) 0 3 (if b = 0xF0 then 0x90 else 0x80)
             (if b = 0xF4 then 0x8F else 0xBF)
         else 0xFFFD # utf8_decode bs 0 0 0 0x80 0xBF))"

definition textDecoder_decode :: "byte list \<Rightarrow> jsstring" where
  "textDecoder_decode bs = utf8_decode (map unat bs) 0 0 0 0x80 0xBF"

subsection \<open>String(v) and Number(v) on cell values\<close>

definition ascii :: "string \<Rightarrow> jsstring" where
  "ascii s = map of_char s"

fun digits :: "nat \<Rightarrow> jsstring" where
  "digits n = (if n < 10 then [48 + n] else digits (n div 10) @ [48 + n mod 10])"

declare digits.simps [simp del]

text \<open>
  A number cell holds an integer (the editor stores the result of \<^verbatim>\<open>parseInt\<close>, and 0
  for NaN).
  \<^verbatim>\<open>String(n)\<close> is the decimal numeral of \<open>n\<close> for an integer of magnitude below \<open>10\<^sup>2\<^sup>1\<close>, which
  is the range that \<open>numberToString\<close> models; from \<open>10\<^sup>2\<^sup>1\<close> on JavaScript prints an exponent
  form, which is not modelled. The text of a number matters only where a number cell stands
  in a STR or STRID column.
\<close>

definition numberToString :: "int \<Rightarrow> jsstring" where
  "numberToString n = (if n < 0 then ascii ''-'' @ digits (nat (- n)) else digits (nat n))"

text \<open>\<^verbatim>\<open>row.cells[c]\<close> is \<^verbatim>\<open>undefined\<close> when the row has no such cell.\<close>

definition cellAt :: "cell list \<Rightarrow> nat \<Rightarrow> cell option" where
  "cellAt cs c = (if c < length cs then Some (cs ! c) else None)"

definition jsString :: "cell option \<Rightarrow> jsstring" where
  "jsString v = (case v of None \<Rightarrow> ascii ''undefined''
                 | Some (Str s) \<Rightarrow> s
                 | Some (Num n) \<Rightarrow> numberToString n)"

text \<open>
  \<^verbatim>\<open>Number(v)\<close> as \<^verbatim>\<open>setInt32\<close> reads it. The numeric value of a string follows the
  StringToNumber grammar of the language, which is no part of this repository: it is the
  parameter \<open>strNum\<close>. \<^verbatim>\<open>Number(undefined)\<close> is NaN, stored as 0.
\<close>

definition jsNumber :: "(jsstring \<Rightarrow> int) \<Rightarrow> cell option \<Rightarrow> int" where
  "jsNumber strNum v = (case v of None \<Rightarrow> 0
                        | Some (Num n) \<Rightarrow> n
                        | Some (Str s) \<Rightarrow> strNum s)"

subsection \<open>DataView: little-endian integers\<close>

text \<open>\<^verbatim>\<open>setUint32(0, value, true)\<close> and \<^verbatim>\<open>setInt32(0, value, true)\<close> store the value
  modulo \<open>2^32\<close>, lowest byte first.\<close>

definition u32le :: "nat \<Rightarrow> byte list" where
  "u32le v =
     [of_nat v, of_nat (v div 256), of_nat (v div 256 div 256), of_nat (v div 256 div 256 div 256)]"

definition i32le :: "int \<Rightarrow> byte list" where
  "i32le v = u32le (nat (v mod 4294967296))"

section \<open>The generator (services/mbeGenerator.ts)\<close>

subsection \<open>class ArrayBufferWriter\<close>

record ArrayBufferWriter =
  buffers :: "byte list list"
  currentOffset :: nat

definition newWriter :: ArrayBufferWriter where
  "newWriter = \<lparr>buffers = [], currentOffset = 0\<rparr>"

definition getCurrentOffset :: "ArrayBufferWriter \<Rightarrow> nat" where
  "getCurrentOffset w = currentOffset w"

definition writeBytes :: "ArrayBufferWriter \<Rightarrow> byte list \<Rightarrow> ArrayBufferWriter" where
  "writeBytes w bytes =
     w\<lparr>buffers := buffers w @ [bytes], currentOffset := currentOffset w + length bytes\<rparr>"

definition writeUint32 :: "ArrayBufferWriter \<Rightarrow> nat \<Rightarrow> ArrayBufferWriter" where
  "writeUint32 w v = writeBytes w (u32le v)"

definition writeInt32 :: "ArrayBufferWriter \<Rightarrow> int \<Rightarrow> ArrayBufferWriter" where
  "writeInt32 w v = writeBytes w (i32le v)"

definition toArrayBuffer :: "ArrayBufferWriter \<Rightarrow> byte list" where
  "toArrayBuffer w = concat (buffers w)"

subsection \<open>Phase 1: structural information of each sheet\<close>

record SheetStructureInfo =
  originalName :: jsstring
  encodedNameBytes :: "byte list"
  columnTypes :: "ColumnType list"
  expaAreaSizePerRow :: nat
  rowCount :: nat

definition calculatedExpaAreaSizePerRow :: "MbeColumn list \<Rightarrow> nat" where
  "calculatedExpaAreaSizePerRow cols =
     fold (\<lambda>column acc. if type column = INT' then acc + 4 else acc + 8) cols 0"

definition structureInfoOf :: "MbeSheet \<Rightarrow> SheetStructureInfo" where
  "structureInfoOf sheet =
     \<lparr>originalName = name sheet,
      encodedNameBytes = textEncoder_encode (name sheet),
      columnTypes = map type (columns sheet),
      expaAreaSizePerRow = calculatedExpaAreaSizePerRow (columns sheet),
      rowCount = length (rows sheet)\<rparr>"

definition sheetStructureInfos :: "MbeFile \<Rightarrow> SheetStructureInfo list" where
  "sheetStructureInfos mbeFile = map structureInfoOf (sheets mbeFile)"

subsection \<open>The padding loop\<close>

text \<open>
  The loop \<^verbatim>\<open>for (let totalNulls = 2; totalNulls <= 5; totalNulls++)\<close>, written three times
  in the source (dry run, sheet name, pool entry) with the same body. \<open>before\<close> is the
  offset at which the data bytes start: the writer's offset plus the 4 bytes of the length
  field (sheet name) or plus the 8 bytes of the entry header (pool entry). The result is the
  final length with padding, \<open>sLen + 2\<close> when the loop ends without a break.
\<close>

function paddingLoop :: "nat \<Rightarrow> nat \<Rightarrow> nat \<Rightarrow> nat" where
  "paddingLoop before sLen totalNulls =
     (if totalNulls \<le> 5 then
        (if (before + (sLen + totalNulls)) mod 4 = 0 then sLen + totalNulls
         else paddingLoop before sLen (totalNulls + 1))
      else sLen + 2)"
  by pat_completeness auto
termination
  by (relation "measure (\<lambda>(before, sLen, totalNulls). 6 - totalNulls)") auto

declare paddingLoop.simps [simp del]

subsection \<open>Sub-phase 2.1: the dry run over the headers\<close>

definition preliminaryHeader :: "ArrayBufferWriter \<Rightarrow> SheetStructureInfo \<Rightarrow> ArrayBufferWriter" where
  "preliminaryHeader pw structureInfo =
     (let sLen = length (encodedNameBytes structureInfo);
          finalSheetNameLengthWithPadding = paddingLoop (getCurrentOffset pw + 4) sLen 2;
          pw1 = writeUint32 pw finalSheetNameLengthWithPadding;
          pw2 = writeBytes pw1 (replicate finalSheetNameLengthWithPadding 0);
          pw3 = writeUint32 pw2 (length (columnTypes structureInfo));
          pw4 = fold (\<lambda>t w. writeUint32 w (columnTypeValue t)) (columnTypes structureInfo) pw3;
          pw5 = writeUint32 pw4 (expaAreaSizePerRow structureInfo)
      in writeUint32 pw5 (rowCount structureInfo))"

definition preliminaryHeaderWriter :: "MbeFile \<Rightarrow> ArrayBufferWriter" where
  "preliminaryHeaderWriter mbeFile =
     fold (\<lambda>structureInfo pw. preliminaryHeader pw structureInfo) (sheetStructureInfos mbeFile)
       (writeUint32 (writeBytes newWriter EXPA_MAGIC_BYTES) (length (sheets mbeFile)))"

definition totalHeaderSize :: "MbeFile \<Rightarrow> nat" where
  "totalHeaderSize mbeFile = getCurrentOffset (preliminaryHeaderWriter mbeFile)"

subsection \<open>Sub-phase 2.2: the headers, and the strings of the pool\<close>

record ChnkRawString =
  targetExpaAbsoluteFileOffset :: nat
  encodedBytes :: "byte list"

definition writeSheetHeader :: "ArrayBufferWriter \<Rightarrow> SheetStructureInfo \<Rightarrow> ArrayBufferWriter" where
  "writeSheetHeader w structureInfo =
     (let sLen = length (encodedNameBytes structureInfo);
          finalSheetNameLengthWithPadding = paddingLoop (getCurrentOffset w + 4) sLen 2;
          paddedSheetNameBytes =
            encodedNameBytes structureInfo @ replicate (finalSheetNameLengthWithPadding - sLen) 0;
          w1 = writeUint32 w finalSheetNameLengthWithPadding;
          w2 = writeBytes w1 paddedSheetNameBytes;
          w3 = writeUint32 w2 (length (columnTypes structureInfo));
          w4 = fold (\<lambda>t w. writeUint32 w (columnTypeValue t)) (columnTypes structureInfo) w3;
          w5 = writeUint32 w4 (expaAreaSizePerRow structureInfo)
      in writeUint32 w5 (rowCount structureInfo))"

text \<open>The loop over the columns of one row: \<open>c\<close> is the column index, \<open>off\<close> is
  \<^verbatim>\<open>currentCellAbsoluteExpaOffset\<close>, \<open>acc\<close> is \<^verbatim>\<open>chnkRawStrings\<close>.\<close>

fun collectRow :: "MbeColumn list \<Rightarrow> cell list \<Rightarrow> nat \<Rightarrow> nat \<Rightarrow> ChnkRawString list
    \<Rightarrow> ChnkRawString list" where
  "collectRow [] cs c off acc = acc"
| "collectRow (column # cols) cs c off acc =
     collectRow cols cs (c + 1) (off + (if type column = INT' then 4 else 8))
       (if type column = STR' \<or> type column = STRID' then
          (let strValue = jsString (cellAt cs c) in
           if strValue \<noteq> [] then
             acc @ [\<lparr>targetExpaAbsoluteFileOffset = off,
                     encodedBytes = textEncoder_encode strValue\<rparr>]
           else acc)
        else acc)"

text \<open>The loop over the rows of one sheet, from row index \<open>r\<close> on.\<close>

fun collectRows :: "MbeColumn list \<Rightarrow> nat \<Rightarrow> nat \<Rightarrow> MbeRow list \<Rightarrow> nat \<Rightarrow> ChnkRawString list
    \<Rightarrow> ChnkRawString list" where
  "collectRows cols sheetExpaDataStart stride [] r acc = acc"
| "collectRows cols sheetExpaDataStart stride (row # rs) r acc =
     collectRows cols sheetExpaDataStart stride rs (r + 1)
       (collectRow cols (cells row) 0 (sheetExpaDataStart + r * stride) acc)"

record HeaderPhase =
  writer :: ArrayBufferWriter
  chnkRawStrings :: "ChnkRawString list"
  sheetExpaDataStartOffsets :: "nat list"
  runningExpaOffsetTracker :: nat

definition headerStep :: "HeaderPhase \<Rightarrow> MbeSheet \<times> SheetStructureInfo \<Rightarrow> HeaderPhase" where
  "headerStep st p =
     (let sheet = fst p; structureInfo = snd p;
          w = writeSheetHeader (writer st) structureInfo;
          sheetExpaDataStart = runningExpaOffsetTracker st
      in \<lparr>writer = w,
          chnkRawStrings =
            collectRows (columns sheet) sheetExpaDataStart (expaAreaSizePerRow structureInfo)
              (rows sheet) 0 (chnkRawStrings st),
          sheetExpaDataStartOffsets = sheetExpaDataStartOffsets st @ [sheetExpaDataStart],
          runningExpaOffsetTracker =
            runningExpaOffsetTracker st
              + expaAreaSizePerRow structureInfo * rowCount structureInfo\<rparr>)"

definition headerPhase :: "MbeFile \<Rightarrow> HeaderPhase" where
  "headerPhase mbeFile =
     fold (\<lambda>p st. headerStep st p) (zip (sheets mbeFile) (sheetStructureInfos mbeFile))
       \<lparr>writer = writeUint32 (writeBytes newWriter EXPA_MAGIC_BYTES) (length (sheets mbeFile)),
        chnkRawStrings = [],
        sheetExpaDataStartOffsets = [],
        runningExpaOffsetTracker = totalHeaderSize mbeFile\<rparr>"

subsection \<open>Phase 3: the EXPA data blocks\<close>

datatype genWarning = ExpaStartMismatch nat nat

definition writeCell :: "(jsstring \<Rightarrow> int) \<Rightarrow> cell list \<Rightarrow> ArrayBufferWriter \<Rightarrow> MbeColumn \<times> nat
    \<Rightarrow> ArrayBufferWriter" where
  "writeCell strNum cs w p =
     (let column = fst p; cellValue = cellAt cs (snd p) in
      if type column = INT' then writeInt32 w (jsNumber strNum cellValue)
      else if type column = STR' \<or> type column = STRID' then writeUint32 (writeUint32 w 0) 0
      else w)"

definition writeRow :: "(jsstring \<Rightarrow> int) \<Rightarrow> MbeColumn list \<Rightarrow> ArrayBufferWriter \<Rightarrow> MbeRow
    \<Rightarrow> ArrayBufferWriter" where
  "writeRow strNum cols w row =
     fold (\<lambda>p w. writeCell strNum (cells row) w p) (zip cols [0..<length cols]) w"

definition writeSheetData :: "(jsstring \<Rightarrow> int) \<Rightarrow> ArrayBufferWriter \<Rightarrow> MbeSheet \<Rightarrow> ArrayBufferWriter" where
  "writeSheetData strNum w sheet =
     fold (\<lambda>row w. writeRow strNum (columns sheet) w row) (rows sheet) w"

definition writeExpaData :: "(jsstring \<Rightarrow> int) \<Rightarrow> ArrayBufferWriter \<Rightarrow> MbeFile \<Rightarrow> ArrayBufferWriter" where
  "writeExpaData strNum w mbeFile = fold (\<lambda>sheet w. writeSheetData strNum w sheet) (sheets mbeFile) w"

subsection \<open>Phase 4: the CHNK block\<close>

text \<open>\<^verbatim>\<open>Array.prototype.sort\<close> is stable, as \<^const>\<open>sort_key\<close> is.\<close>

definition sortedChnkRawStrings :: "MbeFile \<Rightarrow> ChnkRawString list" where
  "sortedChnkRawStrings mbeFile =
     sort_key targetExpaAbsoluteFileOffset (chnkRawStrings (headerPhase mbeFile))"

definition writeChnkEntry :: "ArrayBufferWriter \<Rightarrow> ChnkRawString \<Rightarrow> ArrayBufferWriter" where
  "writeChnkEntry w rawEntry =
     (let encodedStringBytes = encodedBytes rawEntry;
          sLen = length encodedStringBytes;
          finalTextLengthWithPadding = paddingLoop (getCurrentOffset w + 8) sLen 2;
          paddedStringBytes = encodedStringBytes @ replicate (finalTextLengthWithPadding - sLen) 0;
          w1 = writeUint32 w (targetExpaAbsoluteFileOffset rawEntry);
          w2 = writeUint32 w1 finalTextLengthWithPadding
      in writeBytes w2 paddedStringBytes)"

definition writeChnkBlock :: "ArrayBufferWriter \<Rightarrow> ChnkRawString list \<Rightarrow> ArrayBufferWriter" where
  "writeChnkBlock w raw =
     (if length raw > 0 then
        fold (\<lambda>rawEntry w. writeChnkEntry w rawEntry)
          (sort_key targetExpaAbsoluteFileOffset raw)
          (writeUint32 (writeBytes w CHNK_MAGIC_BYTES) (length raw))
      else w)"

subsection \<open>generateMbeFile\<close>

text \<open>The final writer, and the warnings sent to the console on the way.\<close>

definition generatorRun :: "(jsstring \<Rightarrow> int) \<Rightarrow> MbeFile \<Rightarrow> ArrayBufferWriter \<times> genWarning list" where
  "generatorRun strNum mbeFile =
     (let st = headerPhase mbeFile;
          expaDataMasterStartOffset = totalHeaderSize mbeFile;
          warnings =
            (if getCurrentOffset (writer st) \<noteq> expaDataMasterStartOffset
             then [ExpaStartMismatch expaDataMasterStartOffset (getCurrentOffset (writer st))]
             else []);
          w = writeExpaData strNum (writer st) mbeFile
      in (writeChnkBlock w (chnkRawStrings st), warnings))"

definition generateMbeFile :: "(jsstring \<Rightarrow> int) \<Rightarrow> MbeFile \<Rightarrow> byte list" where
  "generateMbeFile strNum mbeFile = toArrayBuffer (fst (generatorRun strNum mbeFile))"

section \<open>The parser (services/mbeParser.ts)\<close>

datatype parseError =
    InvalidMagic
  | UnknownColumnType nat jsstring nat
  | RangeError
  | InternalError jsstring

datatype parseWarning =
    ReadStringOutOfBounds nat nat nat
  | ChnkMagicNotFound nat
  | ChnkEntryHeaderTruncated nat nat
  | ChnkEntryTextBeyondEOF nat nat nat nat nat nat
  | IntCellOutOfBounds jsstring nat nat nat

subsection \<open>DataView reads\<close>

text \<open>A \<^verbatim>\<open>DataView\<close> read that does not lie within the buffer throws a RangeError.\<close>

definition uint32At :: "byte list \<Rightarrow> nat \<Rightarrow> nat" where
  "uint32At view off =
     unat (view ! off) + 256 * (unat (view ! (off + 1)) + 256 * (unat (view ! (off + 2))
       + 256 * unat (view ! (off + 3))))"

definition int32At :: "byte list \<Rightarrow> nat \<Rightarrow> int" where
  "int32At view off =
     (let u = uint32At view off in if 2147483648 \<le> u then int u - 4294967296 else int u)"

definition getUint8 :: "byte list \<Rightarrow> nat \<Rightarrow> parseError + nat" where
  "getUint8 view off = (if off < length view then Inr (unat (view ! off)) else Inl RangeError)"

definition getUint32 :: "byte list \<Rightarrow> nat \<Rightarrow> parseError + nat" where
  "getUint32 view off =
     (if off + 4 \<le> length view then Inr (uint32At view off) else Inl RangeError)"

definition getInt32 :: "byte list \<Rightarrow> nat \<Rightarrow> parseError + int" where
  "getInt32 view off =
     (if off + 4 \<le> length view then Inr (int32At view off) else Inl RangeError)"

subsection \<open>readString, findMagic\<close>

text \<open>
  The decoder is built with \<^verbatim>\<open>fatal: false\<close> for the label \<^verbatim>\<open>'utf-8'\<close>, so neither its
  construction nor \<^verbatim>\<open>decode\<close> throws: the \<^verbatim>\<open>catch\<close> branches (latin1, then the empty
  string) are never entered and have no counterpart here.
\<close>

definition readString :: "byte list \<Rightarrow> nat \<Rightarrow> nat \<Rightarrow> jsstring \<times> parseWarning list" where
  "readString view offset len =
     (if len = 0 then ([], [])
      else if offset + len > length view then
        ([], [ReadStringOutOfBounds offset len (length view)])
      else
        (let effectiveLength = min len (length view - offset) in
         if effectiveLength \<le> 0 then ([], [])
         else
           (let buffer = take effectiveLength (drop offset view);
                actualLength = length (takeWhile (\<lambda>b. b \<noteq> 0) buffer);
                relevantBuffer = take actualLength buffer
            in (textDecoder_decode relevantBuffer, []))))"

function findMagic :: "byte list \<Rightarrow> byte list \<Rightarrow> nat \<Rightarrow> nat option" where
  "findMagic view magicBytes i =
     (if i + length magicBytes \<le> length view then
        (if take (length magicBytes) (drop i view) = magicBytes then Some i
         else findMagic view magicBytes (i + 1))
      else None)"
  by pat_completeness auto
termination
  by (relation "measure (\<lambda>(view, magicBytes, i). length view + 1 - i)") auto

declare findMagic.simps [simp del]

subsection \<open>Pass 1: the sheet headers\<close>

record SheetHeaderData =
  headerName :: jsstring
  headerColumns :: "MbeColumn list"
  headerExpaAreaSizePerRow :: nat
  expaRowCount :: nat
  sheetExpaDataStartOffset :: "nat option"

fun checkMagic :: "byte list \<Rightarrow> byte list \<Rightarrow> nat \<Rightarrow> parseError + unit" where
  "checkMagic view [] i = Inr ()"
| "checkMagic view (m # ms) i =
     (case getUint8 view i of
        Inl e \<Rightarrow> Inl e
      | Inr b \<Rightarrow> if b \<noteq> unat m then Inl InvalidMagic else checkMagic view ms (i + 1))"

function readColumns :: "byte list \<Rightarrow> jsstring \<Rightarrow> nat \<Rightarrow> nat \<Rightarrow> nat \<Rightarrow> MbeColumn list
    \<Rightarrow> parseError + MbeColumn list \<times> nat" where
  "readColumns view sheetName columnCount j off cols =
     (if j < columnCount then
        (case getUint32 view off of
           Inl e \<Rightarrow> Inl e
         | Inr typeVal \<Rightarrow>
             if typeVal = 2 then
               readColumns view sheetName columnCount (j + 1) (off + 4)
                 (cols @ [\<lparr>type = INT', typeName = TN_int\<rparr>])
             else if typeVal = 7 then
               readColumns view sheetName columnCount (j + 1) (off + 4)
                 (cols @ [\<lparr>type = STR', typeName = TN_str\<rparr>])
             else if typeVal = 8 then
               readColumns view sheetName columnCount (j + 1) (off + 4)
                 (cols @ [\<lparr>type = STRID', typeName = TN_strID\<rparr>])
             else Inl (UnknownColumnType typeVal sheetName j))
      else Inr (cols, off))"
  by pat_completeness auto
termination
  by (relation "measure (\<lambda>(view, sheetName, columnCount, j, off, cols). columnCount - j)") auto

declare readColumns.simps [simp del]

function readHeaders :: "byte list \<Rightarrow> nat \<Rightarrow> nat \<Rightarrow> nat \<Rightarrow> SheetHeaderData list
    \<Rightarrow> parseWarning list \<Rightarrow> parseError + SheetHeaderData list \<times> nat \<times> parseWarning list" where
  "readHeaders view sheetCount i currentGlobalOffset acc ws =
     (if i < sheetCount then
        (case getUint32 view currentGlobalOffset of
           Inl e \<Rightarrow> Inl e
         | Inr sheetNameLength \<Rightarrow>
             (let rs = readString view (currentGlobalOffset + 4) sheetNameLength;
                  sheetName = fst rs;
                  off2 = currentGlobalOffset + 4 + sheetNameLength
              in case getUint32 view off2 of
                   Inl e \<Rightarrow> Inl e
                 | Inr columnCount \<Rightarrow>
                     (case readColumns view sheetName columnCount 0 (off2 + 4) [] of
                        Inl e \<Rightarrow> Inl e
                      | Inr (cols, off3) \<Rightarrow>
                          (case getUint32 view off3 of
                             Inl e \<Rightarrow> Inl e
                           | Inr areaSize \<Rightarrow>
                               (case getUint32 view (off3 + 4) of
                                  Inl e \<Rightarrow> Inl e
                                | Inr rowCnt \<Rightarrow>
                                    readHeaders view sheetCount (i + 1) (off3 + 8)
                                      (acc @ [\<lparr>headerName = sheetName, headerColumns = cols,
                                               headerExpaAreaSizePerRow = areaSize,
                                               expaRowCount = rowCnt,
                                               sheetExpaDataStartOffset = None\<rparr>])
                                      (ws @ snd rs))))))
      else Inr (acc, currentGlobalOffset, ws))"
  by pat_completeness auto
termination
  by (relation "measure (\<lambda>(view, sheetCount, i, off, acc, ws). sheetCount - i)") auto

declare readHeaders.simps [simp del]

text \<open>The loop that assigns \<^verbatim>\<open>sheetExpaDataStartOffset\<close>; the second component is the
  final \<^verbatim>\<open>runningExpaOffset\<close>.\<close>

fun assignStarts :: "SheetHeaderData list \<Rightarrow> nat \<Rightarrow> SheetHeaderData list \<times> nat" where
  "assignStarts [] runningExpaOffset = ([], runningExpaOffset)"
| "assignStarts (h # hs) runningExpaOffset =
     (let r = assignStarts hs
                (runningExpaOffset + headerExpaAreaSizePerRow h * expaRowCount h)
      in (h\<lparr>sheetExpaDataStartOffset := Some runningExpaOffset\<rparr> # fst r, snd r))"

subsection \<open>Pass 2: the CHNK block\<close>

type_synonym chnkMap = "nat \<Rightarrow> (jsstring \<times> nat) option"

function parseChnkEntries :: "byte list \<Rightarrow> nat \<Rightarrow> nat \<Rightarrow> nat \<Rightarrow> chnkMap \<Rightarrow> parseWarning list
    \<Rightarrow> chnkMap \<times> parseWarning list" where
  "parseChnkEntries view numChnkEntries i chnkOffset m ws =
     (if i < numChnkEntries then
        (if chnkOffset + 8 > length view then
           (m, ws @ [ChnkEntryHeaderTruncated (i + 1) numChnkEntries])
         else
           (let targetExpaCellAbsoluteFileOffset = uint32At view chnkOffset;
                textLengthIncludingNulls = uint32At view (chnkOffset + 4);
                textActualDataFileOffset = chnkOffset + 8
            in if textActualDataFileOffset + textLengthIncludingNulls > length view then
                 parseChnkEntries view numChnkEntries (i + 1)
                   (if chnkOffset + (8 + textLengthIncludingNulls) > length view then length view
                    else chnkOffset + (8 + textLengthIncludingNulls))
                   m
                   (ws @ [ChnkEntryTextBeyondEOF (i + 1) numChnkEntries
                            targetExpaCellAbsoluteFileOffset textLengthIncludingNulls
                            textActualDataFileOffset (length view)])
               else
                 (let rs = readString view textActualDataFileOffset textLengthIncludingNulls
                  in parseChnkEntries view numChnkEntries (i + 1)
                       (chnkOffset + (8 + textLengthIncludingNulls))
                       (m(targetExpaCellAbsoluteFileOffset \<mapsto> (fst rs, textLengthIncludingNulls)))
                       (ws @ snd rs))))
      else (m, ws))"
  by pat_completeness auto
termination
  by (relation "measure (\<lambda>(view, numChnkEntries, i, off, m, ws). numChnkEntries - i)") auto

declare parseChnkEntries.simps [simp del]

definition parseChnk :: "byte list \<Rightarrow> nat \<Rightarrow> parseError + chnkMap \<times> parseWarning list" where
  "parseChnk view chnkSearchStartOffset =
     (case findMagic view CHNK_MAGIC_BYTES chnkSearchStartOffset of
        None \<Rightarrow> Inr (Map.empty, [ChnkMagicNotFound chnkSearchStartOffset])
      | Some chnkMagicOffset \<Rightarrow>
          (case getUint32 view (chnkMagicOffset + length CHNK_MAGIC_BYTES) of
             Inl e \<Rightarrow> Inl e
           | Inr numChnkEntries \<Rightarrow>
               Inr (parseChnkEntries view numChnkEntries 0
                      (chnkMagicOffset + length CHNK_MAGIC_BYTES + 4) Map.empty [])))"

subsection \<open>Pass 3: sheets and rows\<close>

text \<open>The loop over the columns of one row; \<open>c\<close> is the column index and \<open>within\<close> is
  \<^verbatim>\<open>currentOffsetWithinRow\<close>.\<close>

fun readCells :: "byte list \<Rightarrow> chnkMap \<Rightarrow> jsstring \<Rightarrow> nat \<Rightarrow> nat \<Rightarrow> MbeColumn list \<Rightarrow> nat \<Rightarrow> nat
    \<Rightarrow> cell list \<times> parseWarning list" where
  "readCells view m sheetName r rowBaseFileOffset [] c within = ([], [])"
| "readCells view m sheetName r rowBaseFileOffset (column # cols) c within =
     (let absoluteCellExpaFileOffset = rowBaseFileOffset + within in
      if type column = INT' then
        (let rest = readCells view m sheetName r rowBaseFileOffset cols (c + 1) (within + 4) in
         if absoluteCellExpaFileOffset + 4 > length view then
           (Num 0 # fst rest,
            IntCellOutOfBounds sheetName r c absoluteCellExpaFileOffset # snd rest)
         else (Num (int32At view absoluteCellExpaFileOffset) # fst rest, snd rest))
      else if type column = STR' \<or> type column = STRID' then
        (let rest = readCells view m sheetName r rowBaseFileOffset cols (c + 1) (within + 8) in
         case m absoluteCellExpaFileOffset of
           Some chnkEntry \<Rightarrow> (Str (fst chnkEntry) # fst rest, snd rest)
         | None \<Rightarrow> (Str [] # fst rest, snd rest))
      else readCells view m sheetName r rowBaseFileOffset cols (c + 1) within)"

text \<open>The identity token \<^verbatim>\<open>`row-${i}-${r}-${Date.now()}`\<close>; the clock is the parameter
  \<open>now\<close>, the time read when row \<open>r\<close> of sheet \<open>i\<close> is built.\<close>

definition rowId :: "(nat \<Rightarrow> nat \<Rightarrow> nat) \<Rightarrow> nat \<Rightarrow> nat \<Rightarrow> jsstring" where
  "rowId now i r =
     ascii ''row-'' @ digits i @ ascii ''-'' @ digits r @ ascii ''-'' @ digits (now i r)"

fun readRows :: "(nat \<Rightarrow> nat \<Rightarrow> nat) \<Rightarrow> byte list \<Rightarrow> chnkMap \<Rightarrow> nat \<Rightarrow> SheetHeaderData \<Rightarrow> nat
    \<Rightarrow> nat list \<Rightarrow> MbeRow list \<times> parseWarning list" where
  "readRows now view m i header start [] = ([], [])"
| "readRows now view m i header start (r # rs) =
     (let rowBaseFileOffset = start + r * headerExpaAreaSizePerRow header;
          cs = readCells view m (headerName header) r rowBaseFileOffset (headerColumns header) 0 0;
          rest = readRows now view m i header start rs
      in (\<lparr>id' = rowId now i r, cells = fst cs\<rparr> # fst rest, snd cs @ snd rest))"

fun readSheets :: "(nat \<Rightarrow> nat \<Rightarrow> nat) \<Rightarrow> byte list \<Rightarrow> chnkMap \<Rightarrow> nat \<Rightarrow> SheetHeaderData list
    \<Rightarrow> parseError + MbeSheet list \<times> parseWarning list" where
  "readSheets now view m i [] = Inr ([], [])"
| "readSheets now view m i (header # hs) =
     (case sheetExpaDataStartOffset header of
        None \<Rightarrow> Inl (InternalError (headerName header))
      | Some start \<Rightarrow>
          (let rws = readRows now view m i header start [0..<expaRowCount header] in
           case readSheets now view m (i + 1) hs of
             Inl e \<Rightarrow> Inl e
           | Inr rest \<Rightarrow>
               Inr (\<lparr>name = headerName header, columns = headerColumns header,
                     rows = fst rws,
                     parsedExpaAreaSizePerRow = headerExpaAreaSizePerRow header\<rparr> # fst rest,
                    snd rws @ snd rest)))"

subsection \<open>parseMbeFile\<close>

text \<open>The result is the file together with the warnings sent to the console.\<close>

definition parseMbeFile :: "(nat \<Rightarrow> nat \<Rightarrow> nat) \<Rightarrow> byte list
    \<Rightarrow> parseError + MbeFile \<times> parseWarning list" where
  "parseMbeFile now view =
     (case checkMagic view EXPA_MAGIC_BYTES 0 of
        Inl e \<Rightarrow> Inl e
      | Inr u \<Rightarrow>
          (case getUint32 view (length EXPA_MAGIC_BYTES) of
             Inl e \<Rightarrow> Inl e
           | Inr sheetCount \<Rightarrow>
               (case readHeaders view sheetCount 0 (length EXPA_MAGIC_BYTES + 4) [] [] of
                  Inl e \<Rightarrow> Inl e
                | Inr (sheetHeaderData, expaDataBlocksStartOffset, ws1) \<Rightarrow>
                    (let a = assignStarts sheetHeaderData expaDataBlocksStartOffset;
                         chnkSearchStartOffset = snd a
                     in case parseChnk view chnkSearchStartOffset of
                          Inl e \<Rightarrow> Inl e
                        | Inr (chnkLookupMap, ws2) \<Rightarrow>
                            (case readSheets now view chnkLookupMap 0 (fst a) of
                               Inl e \<Rightarrow> Inl e
                             | Inr (mbeSheets, ws3) \<Rightarrow>
                                 Inr (\<lparr>sheets = mbeSheets\<rparr>, ws1 @ ws2 @ ws3))))))"

section \<open>Properties of the generator\<close>

subsection \<open>The writer\<close>


lemma length_u32le [simp]: "length (u32le v) = 4"
  by (simp add: u32le_def)

lemma length_i32le [simp]: "length (i32le v) = 4"
  by (simp add: i32le_def)

lemma getCurrentOffset_writeBytes [simp]:
  "getCurrentOffset (writeBytes w bs) = getCurrentOffset w + length bs"
  by (simp add: getCurrentOffset_def writeBytes_def)

lemma getCurrentOffset_writeUint32 [simp]:
  "getCurrentOffset (writeUint32 w v) = getCurrentOffset w + 4"
  by (simp add: writeUint32_def)

lemma getCurrentOffset_writeInt32 [simp]:
  "getCurrentOffset (writeInt32 w v) = getCurrentOffset w + 4"
  by (simp add: writeInt32_def)

lemma buffers_writeBytes [simp]: "buffers (writeBytes w bs) = buffers w @ [bs]"
  by (simp add: writeBytes_def)

lemma buffers_writeUint32 [simp]: "buffers (writeUint32 w v) = buffers w @ [u32le v]"
  by (simp add: writeUint32_def)

lemma buffers_writeInt32 [simp]: "buffers (writeInt32 w v) = buffers w @ [i32le v]"
  by (simp add: writeInt32_def)

lemma toArrayBuffer_writeBytes [simp]:
  "toArrayBuffer (writeBytes w bs) = toArrayBuffer w @ bs"
  by (simp add: toArrayBuffer_def)

lemma toArrayBuffer_writeUint32 [simp]:
  "toArrayBuffer (writeUint32 w v) = toArrayBuffer w @ u32le v"
  by (simp add: toArrayBuffer_def)

lemma toArrayBuffer_writeInt32 [simp]:
  "toArrayBuffer (writeInt32 w v) = toArrayBuffer w @ i32le v"
  by (simp add: toArrayBuffer_def)

text \<open>The padding loop, unrolled.\<close>

lemma paddingLoop_unrolled:
  "paddingLoop b L 2 =
     (if (b + (L + 2)) mod 4 = 0 then L + 2
      else if (b + (L + 3)) mod 4 = 0 then L + 3
      else if (b + (L + 4)) mod 4 = 0 then L + 4
      else if (b + (L + 5)) mod 4 = 0 then L + 5
      else L + 2)"
  by (simp add: paddingLoop.simps [of b L 2] paddingLoop.simps [of b L 3] paddingLoop.simps [of b L 4]
      paddingLoop.simps [of b L 5] paddingLoop.simps [of b L 6])

lemma paddingLoop_aligned: "(b + paddingLoop b L 2) mod 4 = 0"
  unfolding paddingLoop_unrolled by presburger

lemma paddingLoop_ge: "L + 2 \<le> paddingLoop b L 2"
  unfolding paddingLoop_unrolled by simp

lemma paddingLoop_le: "paddingLoop b L 2 \<le> L + 5"
  unfolding paddingLoop_unrolled by simp

lemma paddingLoop_least:
  "2 \<le> M \<Longrightarrow> L + M < paddingLoop b L 2 \<Longrightarrow> (b + (L + M)) mod 4 \<noteq> 0"
proof -
  assume a: "2 \<le> M" and b: "L + M < paddingLoop b L 2"
  from b paddingLoop_le [of b L] have "M < 5" by simp
  with a have "M = 2 \<or> M = 3 \<or> M = 4" by arith
  with b show ?thesis
    unfolding paddingLoop_unrolled by (auto split: if_splits)
qed


text \<open>Writers whose offset is the number of bytes written.\<close>

definition okWriter :: "ArrayBufferWriter \<Rightarrow> bool" where
  "okWriter w = (getCurrentOffset w = length (toArrayBuffer w))"

lemma okWriter_new: "okWriter newWriter"
  by (simp add: okWriter_def newWriter_def getCurrentOffset_def toArrayBuffer_def)

lemma okWriter_writeBytes: "okWriter w \<Longrightarrow> okWriter (writeBytes w bs)"
  by (simp add: okWriter_def)

lemma okWriter_writeUint32: "okWriter w \<Longrightarrow> okWriter (writeUint32 w v)"
  by (simp add: okWriter_def)

lemma okWriter_writeInt32: "okWriter w \<Longrightarrow> okWriter (writeInt32 w v)"
  by (simp add: okWriter_def)

subsection \<open>Column widths\<close>

definition cellWidth :: "MbeColumn \<Rightarrow> nat" where
  "cellWidth column = (if type column = INT' then 4 else 8)"

definition rowWidth :: "MbeColumn list \<Rightarrow> nat" where
  "rowWidth cols = sum_list (map cellWidth cols)"

lemma fold_width: 
  "fold (\<lambda>column acc. if type column = INT' then acc + 4 else acc + 8) cols a = a + rowWidth cols"
  by (induction cols arbitrary: a) (simp_all add: rowWidth_def cellWidth_def)

lemma calculatedExpaAreaSizePerRow_eq: "calculatedExpaAreaSizePerRow cols = rowWidth cols"
  by (simp add: calculatedExpaAreaSizePerRow_def fold_width)

subsection \<open>Offsets of the header writers\<close>

lemma getCurrentOffset_fold_types:
  "getCurrentOffset (fold (\<lambda>t w. writeUint32 w (columnTypeValue t)) ts w)
     = getCurrentOffset w + 4 * length ts"
  by (induction ts arbitrary: w) simp_all

definition headerSize :: "nat \<Rightarrow> SheetStructureInfo \<Rightarrow> nat" where
  "headerSize off structureInfo =
     4 + paddingLoop (off + 4) (length (encodedNameBytes structureInfo)) 2
       + 4 + 4 * length (columnTypes structureInfo) + 8"

lemma getCurrentOffset_preliminaryHeader:
  "getCurrentOffset (preliminaryHeader pw info) = getCurrentOffset pw + headerSize (getCurrentOffset pw) info"
  by (simp add: preliminaryHeader_def Let_def getCurrentOffset_fold_types headerSize_def)

lemma getCurrentOffset_writeSheetHeader:
  "getCurrentOffset (writeSheetHeader w info) = getCurrentOffset w + headerSize (getCurrentOffset w) info"
  using paddingLoop_ge [of "length (encodedNameBytes info)" "getCurrentOffset w + 4"]
  by (simp add: writeSheetHeader_def Let_def getCurrentOffset_fold_types headerSize_def)

lemma fold_headers_same_offset:
  "getCurrentOffset w = getCurrentOffset pw \<Longrightarrow>
   getCurrentOffset (fold (\<lambda>info w. writeSheetHeader w info) infos w)
     = getCurrentOffset (fold (\<lambda>info pw. preliminaryHeader pw info) infos pw)"
proof (induction infos arbitrary: w pw)
  case Nil
  then show ?case by simp
next
  case (Cons info infos)
  have "getCurrentOffset (writeSheetHeader w info) = getCurrentOffset (preliminaryHeader pw info)"
    using Cons.prems
    by (simp add: getCurrentOffset_writeSheetHeader getCurrentOffset_preliminaryHeader)
  then show ?case
    using Cons.IH by simp
qed

lemma structureInfoOf_simps [simp]:
  "originalName (structureInfoOf sheet) = name sheet"
  "encodedNameBytes (structureInfoOf sheet) = textEncoder_encode (name sheet)"
  "columnTypes (structureInfoOf sheet) = map type (columns sheet)"
  "expaAreaSizePerRow (structureInfoOf sheet) = rowWidth (columns sheet)"
  "rowCount (structureInfoOf sheet) = length (rows sheet)"
  by (simp_all add: structureInfoOf_def calculatedExpaAreaSizePerRow_eq)

text \<open>The components of the state of sub-phase 2.2 evolve independently.\<close>

fun collectSheets :: "MbeSheet list \<Rightarrow> nat \<Rightarrow> ChnkRawString list \<Rightarrow> ChnkRawString list" where
  "collectSheets [] start acc = acc"
| "collectSheets (sheet # ss) start acc =
     collectSheets ss (start + rowWidth (columns sheet) * length (rows sheet))
       (collectRows (columns sheet) start (rowWidth (columns sheet)) (rows sheet) 0 acc)"

definition dataSize :: "MbeSheet list \<Rightarrow> nat" where
  "dataSize ss = sum_list (map (\<lambda>sheet. rowWidth (columns sheet) * length (rows sheet)) ss)"

lemma headerPhase_fold:
  "fold (\<lambda>p st. headerStep st p) (zip ss (map structureInfoOf ss)) st =
     \<lparr>writer = fold (\<lambda>info w. writeSheetHeader w info) (map structureInfoOf ss) (writer st),
      chnkRawStrings = collectSheets ss (runningExpaOffsetTracker st) (chnkRawStrings st),
      sheetExpaDataStartOffsets = sheetExpaDataStartOffsets st @ 
         map (\<lambda>k. runningExpaOffsetTracker st + dataSize (take k ss)) [0..<length ss],
      runningExpaOffsetTracker = runningExpaOffsetTracker st + dataSize ss\<rparr>"
proof (induction ss arbitrary: st)
  case Nil
  then show ?case by (simp add: dataSize_def)
next
  case (Cons s ss)
  have upt: "[0..<Suc (length ss)] = 0 # map Suc [0..<length ss]"
    by (simp add: upt_conv_Cons map_Suc_upt del: upt_Suc)
  show ?case
    apply (simp only: list.map zip_Cons_Cons fold_Cons comp_apply Cons.IH)
    apply (simp add: headerStep_def Let_def dataSize_def upt comp_def add.assoc del: upt_Suc)
    done
qed


text \<open>
  The padding rule in the words of the specification (section 4.2): \<open>N\<close> is the smallest
  value in \<open>{2,3,4,5}\<close> for which the offset after the \<open>L + N\<close> data bytes, which start at
  offset \<open>before\<close>, is a multiple of 4, and 2 when no value of that range qualifies.
\<close>

definition chosenPadding :: "nat \<Rightarrow> nat \<Rightarrow> nat \<Rightarrow> bool" where
  "chosenPadding before L N =
     (if \<exists>M\<in>{2..5}. (before + (L + M)) mod 4 = 0
      then N \<in> {2..5} \<and> (before + (L + N)) mod 4 = 0
           \<and> (\<forall>M\<in>{2..<N}. (before + (L + M)) mod 4 \<noteq> 0)
      else N = 2)"

lemma chosenPadding_paddingLoop: "chosenPadding b L (paddingLoop b L 2 - L)"
proof -
  let ?N = "paddingLoop b L 2 - L"
  have N: "paddingLoop b L 2 = L + ?N" "2 \<le> ?N" "?N \<le> 5"
    using paddingLoop_ge [of L b] paddingLoop_le [of b L] by simp_all
  have al: "(b + (L + ?N)) mod 4 = 0"
    using paddingLoop_aligned [of b L] N(1) by simp
  have least: "(b + (L + M)) mod 4 \<noteq> 0" if "M \<in> {2..<?N}" for M
    using that paddingLoop_least [of M L b] N(1) by simp
  have ex: "\<exists>M\<in>{2..5}. (b + (L + M)) mod 4 = 0"
    using al N(2,3) by (intro bexI [of _ ?N]) simp_all
  show ?thesis
    unfolding chosenPadding_def using ex al least N(2,3) by simp
qed

lemma buffers_fold_types:
  "buffers (fold (\<lambda>t w. writeUint32 w (columnTypeValue t)) ts w)
     = buffers w @ map (\<lambda>t. u32le (columnTypeValue t)) ts"
  by (induction ts arbitrary: w) simp_all

lemma buffers_writeSheetHeader:
  "buffers (writeSheetHeader w info) =
     buffers w @
     [u32le (paddingLoop (getCurrentOffset w + 4) (length (encodedNameBytes info)) 2),
      encodedNameBytes info
        @ replicate (paddingLoop (getCurrentOffset w + 4) (length (encodedNameBytes info)) 2
             - length (encodedNameBytes info)) 0,
      u32le (length (columnTypes info))] @
     map (\<lambda>t. u32le (columnTypeValue t)) (columnTypes info) @
     [u32le (expaAreaSizePerRow info), u32le (rowCount info)]"
  by (simp add: writeSheetHeader_def Let_def buffers_fold_types)

lemma buffers_writeChnkEntry:
  "buffers (writeChnkEntry w e) =
     buffers w @
     [u32le (targetExpaAbsoluteFileOffset e),
      u32le (paddingLoop (getCurrentOffset w + 8) (length (encodedBytes e)) 2),
      encodedBytes e
        @ replicate (paddingLoop (getCurrentOffset w + 8) (length (encodedBytes e)) 2
             - length (encodedBytes e)) 0]"
  by (simp add: writeChnkEntry_def Let_def)

text \<open>
  Claim C2. Each variable-length string field is written by \<^const>\<open>writeSheetHeader\<close> (a sheet
  name) or by \<^const>\<open>writeChnkEntry\<close> (the body of a pool entry), whatever the writer's state.
  With \<open>L\<close> the number of encoded bytes, the padding \<open>N\<close> is the smallest value in
  \<open>{2,3,4,5}\<close> for which the offset after the \<open>L + N\<close> data bytes is a multiple of 4 (2 if
  there were none); the length field written just before the data holds \<open>L + N\<close>, and the
  data are the encoded bytes followed by \<open>N\<close> NUL bytes.
\<close>

theorem padding_rule:
  "(\<exists>N. chosenPadding (getCurrentOffset w + 4) (length (encodedNameBytes info)) N
      \<and> take 2 (drop (length (buffers w)) (buffers (writeSheetHeader w info)))
          = [u32le (length (encodedNameBytes info) + N), encodedNameBytes info @ replicate N 0])
   \<and> (\<exists>N. chosenPadding (getCurrentOffset w + 8) (length (encodedBytes e)) N
      \<and> buffers (writeChnkEntry w e)
          = buffers w @ [u32le (targetExpaAbsoluteFileOffset e),
                         u32le (length (encodedBytes e) + N),
                         encodedBytes e @ replicate N 0])"
proof (intro conjI)
  let ?L = "length (encodedNameBytes info)"
  let ?P = "paddingLoop (getCurrentOffset w + 4) ?L 2"
  have P: "?P = ?L + (?P - ?L)"
    using paddingLoop_ge [of ?L "getCurrentOffset w + 4"] by simp
  show "\<exists>N. chosenPadding (getCurrentOffset w + 4) ?L N
      \<and> take 2 (drop (length (buffers w)) (buffers (writeSheetHeader w info)))
          = [u32le (?L + N), encodedNameBytes info @ replicate N 0]"
    apply (rule exI [of _ "?P - ?L"])
    apply (simp add: chosenPadding_paddingLoop buffers_writeSheetHeader)
    using P apply simp
    done
next
  let ?L = "length (encodedBytes e)"
  let ?P = "paddingLoop (getCurrentOffset w + 8) ?L 2"
  have P: "?P = ?L + (?P - ?L)"
    using paddingLoop_ge [of ?L "getCurrentOffset w + 8"] by simp
  show "\<exists>N. chosenPadding (getCurrentOffset w + 8) ?L N
      \<and> buffers (writeChnkEntry w e)
          = buffers w @ [u32le (targetExpaAbsoluteFileOffset e), u32le (?L + N),
                         encodedBytes e @ replicate N 0]"
    apply (rule exI [of _ "?P - ?L"])
    apply (simp add: chosenPadding_paddingLoop buffers_writeChnkEntry)
    using P apply simp
    done
qed


definition exampleWriter :: ArrayBufferWriter where
  "exampleWriter = writeUint32 (writeBytes newWriter EXPA_MAGIC_BYTES) 1"

definition exampleInfo :: SheetStructureInfo where
  "exampleInfo = \<lparr>originalName = ascii ''x'', encodedNameBytes = [0x78],
     columnTypes = [INT'], expaAreaSizePerRow = 4, rowCount = 2\<rparr>"

definition exampleEntry :: ChnkRawString where
  "exampleEntry = \<lparr>targetExpaAbsoluteFileOffset = 40, encodedBytes = [0x68, 0x69]\<rparr>"

lemma chosenPadding_unique:
  "chosenPadding b L N \<Longrightarrow> N = paddingLoop b L 2 - L"
proof -
  assume a: "chosenPadding b L N"
  let ?K = "paddingLoop b L 2 - L"
  have K: "chosenPadding b L ?K" by (rule chosenPadding_paddingLoop)
  have rng: "2 \<le> ?K" "?K \<le> 5"
    using paddingLoop_ge [of L b] paddingLoop_le [of b L] by arith+
  have "(b + (L + ?K)) mod 4 = 0"
    using paddingLoop_aligned [of b L] paddingLoop_ge [of L b] by simp
  with rng have ex: "\<exists>M\<in>{2..5}. (b + (L + M)) mod 4 = 0"
    by (intro bexI [of _ ?K]) simp_all
  from a ex have n: "N \<in> {2..5}" "(b + (L + N)) mod 4 = 0"
    "\<forall>M\<in>{2..<N}. (b + (L + M)) mod 4 \<noteq> 0"
    by (simp_all add: chosenPadding_def)
  from K ex have k: "?K \<in> {2..5}" "(b + (L + ?K)) mod 4 = 0"
    "\<forall>M\<in>{2..<?K}. (b + (L + M)) mod 4 \<noteq> 0"
    by (simp_all add: chosenPadding_def)
  have "\<not> N < ?K"
  proof
    assume "N < ?K"
    with n(1) have "N \<in> {2..<?K}" by simp
    with k(3) have "(b + (L + N)) mod 4 \<noteq> 0" by blast
    with n(2) show False by simp
  qed
  moreover have "\<not> ?K < N"
  proof
    assume "?K < N"
    with k(1) have "?K \<in> {2..<N}" by simp
    with n(3) have "(b + (L + ?K)) mod 4 \<noteq> 0" by blast
    with k(2) show False by simp
  qed
  ultimately show ?thesis by simp
qed

theorem padding_rule_witness:
  "take 2 (drop (length (buffers exampleWriter)) (buffers (writeSheetHeader exampleWriter exampleInfo)))
     = [u32le 4, [0x78, 0, 0, 0]]
   \<and> buffers (writeChnkEntry exampleWriter exampleEntry)
     = buffers exampleWriter @ [u32le 40, u32le 4, [0x68, 0x69, 0, 0]]"
proof -
  have off: "getCurrentOffset exampleWriter = 8"
    by (simp add: exampleWriter_def EXPA_MAGIC_BYTES_def newWriter_def getCurrentOffset_def
        writeUint32_def writeBytes_def)
  have p1: "paddingLoop 12 1 2 - 1 = 3" and p2: "paddingLoop 16 2 2 - 2 = 2"
    by (simp_all add: paddingLoop_unrolled)
  from padding_rule [of exampleWriter exampleInfo exampleEntry]
  obtain N M where
    N: "chosenPadding (getCurrentOffset exampleWriter + 4) (length (encodedNameBytes exampleInfo)) N"
      "take 2 (drop (length (buffers exampleWriter)) (buffers (writeSheetHeader exampleWriter exampleInfo)))
        = [u32le (length (encodedNameBytes exampleInfo) + N), encodedNameBytes exampleInfo @ replicate N 0]"
    and M: "chosenPadding (getCurrentOffset exampleWriter + 8) (length (encodedBytes exampleEntry)) M"
      "buffers (writeChnkEntry exampleWriter exampleEntry)
        = buffers exampleWriter @ [u32le (targetExpaAbsoluteFileOffset exampleEntry),
            u32le (length (encodedBytes exampleEntry) + M), encodedBytes exampleEntry @ replicate M 0]"
    by blast
  have len: "length (encodedNameBytes exampleInfo) = 1" "length (encodedBytes exampleEntry) = 2"
    by (simp_all add: exampleInfo_def exampleEntry_def)
  have "chosenPadding 12 1 N" "chosenPadding 16 2 M"
    using N(1) M(1) by (simp_all add: off len)
  from chosenPadding_unique [OF this(1)] chosenPadding_unique [OF this(2)] p1 p2
  have "N = 3" "M = 2"
    by simp_all
  moreover have "replicate 3 (0::byte) = [0, 0, 0]" "replicate 2 (0::byte) = [0, 0]"
    by (simp_all add: numeral_3_eq_3 numeral_2_eq_2)
  ultimately show ?thesis
    using N(2) M(2) by (simp add: exampleInfo_def exampleEntry_def u32le_def)
qed


subsection \<open>The dry run and the real headers\<close>

lemma sheetStructureInfos_eq: "sheetStructureInfos F = map structureInfoOf (sheets F)"
  by (simp add: sheetStructureInfos_def)

lemma headerPhase_eq:
  "headerPhase F =
     \<lparr>writer = fold (\<lambda>info w. writeSheetHeader w info) (map structureInfoOf (sheets F))
                 (writeUint32 (writeBytes newWriter EXPA_MAGIC_BYTES) (length (sheets F))),
      chnkRawStrings = collectSheets (sheets F) (totalHeaderSize F) [],
      sheetExpaDataStartOffsets =
         map (\<lambda>k. totalHeaderSize F + dataSize (take k (sheets F))) [0..<length (sheets F)],
      runningExpaOffsetTracker = totalHeaderSize F + dataSize (sheets F)\<rparr>"
  by (simp add: headerPhase_def sheetStructureInfos_eq headerPhase_fold)

lemma headerPhase_offset: "getCurrentOffset (writer (headerPhase F)) = totalHeaderSize F"
  unfolding headerPhase_eq totalHeaderSize_def preliminaryHeaderWriter_def sheetStructureInfos_eq
  by (simp add: fold_headers_same_offset)

subsection \<open>Phase 3 with a trace\<close>

text \<open>
  Phase 3 once more, with a second component that records the writer's offset at the moment
  the placeholder of a string cell is written whose text is not empty. The first component
  is the writer of the untraced functions.
\<close>

definition writeCellTraced :: "(jsstring \<Rightarrow> int) \<Rightarrow> cell list \<Rightarrow> ArrayBufferWriter \<times> nat list
    \<Rightarrow> MbeColumn \<times> nat \<Rightarrow> ArrayBufferWriter \<times> nat list" where
  "writeCellTraced strNum cs wt p =
     (writeCell strNum cs (fst wt) p,
      snd wt @ (if (type (fst p) = STR' \<or> type (fst p) = STRID')
                   \<and> jsString (cellAt cs (snd p)) \<noteq> []
                then [getCurrentOffset (fst wt)] else []))"

definition writeRowTraced :: "(jsstring \<Rightarrow> int) \<Rightarrow> MbeColumn list \<Rightarrow> ArrayBufferWriter \<times> nat list
    \<Rightarrow> MbeRow \<Rightarrow> ArrayBufferWriter \<times> nat list" where
  "writeRowTraced strNum cols wt row =
     fold (\<lambda>p wt. writeCellTraced strNum (cells row) wt p) (zip cols [0..<length cols]) wt"

definition writeSheetDataTraced :: "(jsstring \<Rightarrow> int) \<Rightarrow> ArrayBufferWriter \<times> nat list \<Rightarrow> MbeSheet
    \<Rightarrow> ArrayBufferWriter \<times> nat list" where
  "writeSheetDataTraced strNum wt sheet =
     fold (\<lambda>row wt. writeRowTraced strNum (columns sheet) wt row) (rows sheet) wt"

definition writeExpaDataTraced :: "(jsstring \<Rightarrow> int) \<Rightarrow> ArrayBufferWriter \<times> nat list \<Rightarrow> MbeFile
    \<Rightarrow> ArrayBufferWriter \<times> nat list" where
  "writeExpaDataTraced strNum wt mbeFile =
     fold (\<lambda>sheet wt. writeSheetDataTraced strNum wt sheet) (sheets mbeFile) wt"

lemma fst_fold_traced:
  assumes "\<And>x wt. fst (g x wt) = f x (fst wt)"
  shows "fst (fold g xs wt) = fold f xs (fst wt)"
  using assms by (induction xs arbitrary: wt) simp_all

lemma fst_writeRowTraced: "fst (writeRowTraced strNum cols wt row) = writeRow strNum cols (fst wt) row"
  unfolding writeRowTraced_def writeRow_def
  by (rule fst_fold_traced) (simp add: writeCellTraced_def)

lemma fst_writeSheetDataTraced:
  "fst (writeSheetDataTraced strNum wt sheet) = writeSheetData strNum (fst wt) sheet"
  unfolding writeSheetDataTraced_def writeSheetData_def
  by (rule fst_fold_traced) (simp add: fst_writeRowTraced)

lemma fst_writeExpaDataTraced:
  "fst (writeExpaDataTraced strNum wt F) = writeExpaData strNum (fst wt) F"
  unfolding writeExpaDataTraced_def writeExpaData_def
  by (rule fst_fold_traced) (simp add: fst_writeSheetDataTraced)

lemma type_cases: "type column \<noteq> INT' \<Longrightarrow> type column = STR' \<or> type column = STRID'"
  by (cases "type column") simp_all

lemma getCurrentOffset_writeCell:
  "getCurrentOffset (writeCell strNum cs w (column, c)) = getCurrentOffset w + cellWidth column"
  by (auto simp: writeCell_def cellWidth_def Let_def dest: type_cases)

lemma collectRow_acc:
  "collectRow cols cs c off acc = acc @ collectRow cols cs c off []"
proof (induction cols arbitrary: c off acc)
  case Nil
  then show ?case by simp
next
  case (Cons column cols)
  show ?case
    apply (simp only: collectRow.simps)
    apply (subst Cons.IH)
    apply (subst (2) Cons.IH)
    apply (simp add: Let_def)
    done
qed

lemma collectRows_acc:
  "collectRows cols start stride rs r acc = acc @ collectRows cols start stride rs r []"
proof (induction rs arbitrary: r acc)
  case Nil
  then show ?case by simp
next
  case (Cons row rs)
  show ?case
    apply (simp only: collectRows.simps)
    apply (subst Cons.IH)
    apply (subst (2) Cons.IH)
    apply (subst collectRow_acc)
    apply simp
    done
qed

lemma collectSheets_acc:
  "collectSheets ss start acc = acc @ collectSheets ss start []"
proof (induction ss arbitrary: start acc)
  case Nil
  then show ?case by simp
next
  case (Cons s ss)
  show ?case
    apply (simp only: collectSheets.simps)
    apply (subst Cons.IH)
    apply (subst (2) Cons.IH)
    apply (subst collectRows_acc)
    apply simp
    done
qed

lemma collectRow_Cons:
  "collectRow (column # cols) cs c off acc =
     acc @ (if (type column = STR' \<or> type column = STRID') \<and> jsString (cellAt cs c) \<noteq> []
            then [\<lparr>targetExpaAbsoluteFileOffset = off,
                    encodedBytes = textEncoder_encode (jsString (cellAt cs c))\<rparr>] else [])
         @ collectRow cols cs (Suc c) (off + cellWidth column) []"
  apply (simp only: collectRow.simps)
  apply (subst collectRow_acc)
  apply (simp add: cellWidth_def Let_def)
  done

lemma collectRows_Cons:
  "collectRows cols start stride (row # rs) r acc =
     acc @ collectRow cols (cells row) 0 (start + r * stride) []
         @ collectRows cols start stride rs (Suc r) []"
  apply (simp only: collectRows.simps)
  apply (subst collectRows_acc)
  apply (subst collectRow_acc)
  apply simp
  done

lemma collectSheets_Cons:
  "collectSheets (sheet # ss) start acc =
     acc @ collectRows (columns sheet) start (rowWidth (columns sheet)) (rows sheet) 0 []
         @ collectSheets ss (start + rowWidth (columns sheet) * length (rows sheet)) []"
  apply (simp only: collectSheets.simps)
  apply (subst collectSheets_acc)
  apply (subst collectRows_acc)
  apply simp
  done

declare collectRow.simps(2) [simp del] collectRows.simps(2) [simp del]
  collectSheets.simps(2) [simp del]

lemma zip_upt_Cons:
  "zip (x # xs) [c..<c + length (x # xs)] = (x, c) # zip xs [Suc c..<Suc c + length xs]"
  by (simp add: upt_conv_Cons del: upt_Suc)

lemma writeCellTraced_pair:
  "writeCellTraced strNum cs (w, tr) (column, c) =
     (writeCell strNum cs w (column, c),
      tr @ (if (type column = STR' \<or> type column = STRID') \<and> jsString (cellAt cs c) \<noteq> []
            then [getCurrentOffset w] else []))"
  by (simp add: writeCellTraced_def)

lemma traced_row:
  "getCurrentOffset (fst (fold (\<lambda>p wt. writeCellTraced strNum cs wt p)
       (zip cols [c..<c + length cols]) (w, tr))) = getCurrentOffset w + rowWidth cols
   \<and> snd (fold (\<lambda>p wt. writeCellTraced strNum cs wt p) (zip cols [c..<c + length cols]) (w, tr))
      = tr @ map targetExpaAbsoluteFileOffset (collectRow cols cs c (getCurrentOffset w) [])"
proof (induction cols arbitrary: c w tr)
  case Nil
  then show ?case by (simp add: rowWidth_def)
next
  case (Cons column cols)
  have o1: "getCurrentOffset (writeCell strNum cs w (column, c)) = getCurrentOffset w + cellWidth column"
    by (rule getCurrentOffset_writeCell)
  show ?case
    apply (subst zip_upt_Cons)+
    apply (simp only: fold_Cons comp_apply writeCellTraced_pair Cons.IH o1 collectRow_Cons)
    apply (simp add: rowWidth_def)
    done
qed


lemma traced_writeRow:
  "getCurrentOffset (fst (writeRowTraced strNum cols wt row)) = getCurrentOffset (fst wt) + rowWidth cols
   \<and> snd (writeRowTraced strNum cols wt row)
      = snd wt @ map targetExpaAbsoluteFileOffset
                   (collectRow cols (cells row) 0 (getCurrentOffset (fst wt)) [])"
  using traced_row [of strNum "cells row" cols 0 "fst wt" "snd wt"]
  by (simp add: writeRowTraced_def)

lemma traced_rows:
  "getCurrentOffset (fst wt) = start + r * rowWidth cols \<Longrightarrow>
   getCurrentOffset (fst (fold (\<lambda>row wt. writeRowTraced strNum cols wt row) rs wt))
     = getCurrentOffset (fst wt) + rowWidth cols * length rs
   \<and> snd (fold (\<lambda>row wt. writeRowTraced strNum cols wt row) rs wt)
     = snd wt @ map targetExpaAbsoluteFileOffset (collectRows cols start (rowWidth cols) rs r [])"
proof (induction rs arbitrary: wt r)
  case Nil
  then show ?case by simp
next
  case (Cons row rs)
  let ?wt1 = "writeRowTraced strNum cols wt row"
  have 1: "getCurrentOffset (fst ?wt1) = start + (r + 1) * rowWidth cols"
    using traced_writeRow [of strNum cols wt row] Cons.prems by simp
  show ?case
    using Cons.IH [OF 1] traced_writeRow [of strNum cols wt row] Cons.prems
    by (simp add: collectRows_Cons)
qed

lemma traced_writeSheetData:
  "getCurrentOffset (fst (writeSheetDataTraced strNum wt sheet))
     = getCurrentOffset (fst wt) + rowWidth (columns sheet) * length (rows sheet)
   \<and> snd (writeSheetDataTraced strNum wt sheet)
     = snd wt @ map targetExpaAbsoluteFileOffset
         (collectRows (columns sheet) (getCurrentOffset (fst wt)) (rowWidth (columns sheet))
            (rows sheet) 0 [])"
  using traced_rows [of wt "getCurrentOffset (fst wt)" 0 "columns sheet" strNum "rows sheet"]
  by (simp add: writeSheetDataTraced_def)

lemma traced_sheets:
  "getCurrentOffset (fst (fold (\<lambda>sheet wt. writeSheetDataTraced strNum wt sheet) ss wt))
     = getCurrentOffset (fst wt) + dataSize ss
   \<and> snd (fold (\<lambda>sheet wt. writeSheetDataTraced strNum wt sheet) ss wt)
     = snd wt @ map targetExpaAbsoluteFileOffset (collectSheets ss (getCurrentOffset (fst wt)) [])"
proof (induction ss arbitrary: wt)
  case Nil
  then show ?case by (simp add: dataSize_def)
next
  case (Cons s ss)
  show ?case
    using Cons.IH [of "writeSheetDataTraced strNum wt s"] traced_writeSheetData [of strNum wt s]
    by (simp add: collectSheets_Cons dataSize_def)
qed

lemma targets_are_trace:
  "map targetExpaAbsoluteFileOffset (chnkRawStrings (headerPhase F))
     = snd (writeExpaDataTraced strNum (writer (headerPhase F), []) F)"
  using traced_sheets [of strNum "sheets F" "(writer (headerPhase F), [])"]
  by (simp add: writeExpaDataTraced_def headerPhase_offset) (simp add: headerPhase_eq)



subsection \<open>What the trace says about the buffer\<close>

definition traceInv :: "ArrayBufferWriter \<times> nat list \<Rightarrow> bool" where
  "traceInv wt =
     (okWriter (fst wt) \<and> sorted_wrt (<) (snd wt)
      \<and> (\<forall>off\<in>set (snd wt). off + 8 \<le> length (toArrayBuffer (fst wt))
            \<and> take 8 (drop off (toArrayBuffer (fst wt))) = replicate 8 0))"

lemma fold_invariant:
  assumes "\<And>x s. P s \<Longrightarrow> P (g x s)" and "P s"
  shows "P (fold g xs s)"
  using assms(2) by (induction xs arbitrary: s) (simp_all add: assms(1))

lemma replicate_8: "replicate 8 x = [x, x, x, x, x, x, x, x]"
  by (simp add: numeral_eq_Suc)

lemma u32le_0: "u32le 0 @ u32le 0 = replicate 8 0"
  by (simp add: u32le_def replicate_8)

lemma okWriter_writeCell: "okWriter w \<Longrightarrow> okWriter (writeCell strNum cs w p)"
  by (simp add: writeCell_def Let_def okWriter_writeUint32 okWriter_writeInt32)

lemma toArrayBuffer_writeCell:
  "\<exists>X. toArrayBuffer (writeCell strNum cs w p) = toArrayBuffer w @ X"
  by (simp add: writeCell_def Let_def)

lemma toArrayBuffer_writeCell_string:
  "type column = STR' \<or> type column = STRID' \<Longrightarrow>
   toArrayBuffer (writeCell strNum cs w (column, c)) = toArrayBuffer w @ replicate 8 0"
  by (auto simp: writeCell_def Let_def u32le_0)

lemma traceInv_writeCellTraced:
  assumes "traceInv wt"
  shows "traceInv (writeCellTraced strNum cs wt p)"
proof -
  obtain w tr where wt: "wt = (w, tr)" by (cases wt)
  obtain column c where p: "p = (column, c)" by (cases p)
  from assms wt have ok: "okWriter w" and srt: "sorted_wrt (<) tr"
    and old: "\<And>off. off \<in> set tr \<Longrightarrow> off + 8 \<le> length (toArrayBuffer w)
            \<and> take 8 (drop off (toArrayBuffer w)) = replicate 8 0"
    by (simp_all add: traceInv_def)
  let ?w' = "writeCell strNum cs w (column, c)"
  obtain X where X: "toArrayBuffer ?w' = toArrayBuffer w @ X"
    using toArrayBuffer_writeCell by blast
  have ok': "okWriter ?w'" using ok by (rule okWriter_writeCell)
  have keep: "off + 8 \<le> length (toArrayBuffer ?w')
            \<and> take 8 (drop off (toArrayBuffer ?w')) = replicate 8 0" if "off \<in> set tr" for off
    using old [OF that] by (simp add: X)
  show ?thesis
  proof (cases "(type column = STR' \<or> type column = STRID') \<and> jsString (cellAt cs c) \<noteq> []")
    case False
    then have "writeCellTraced strNum cs wt p = (?w', tr)"
      by (auto simp: wt p writeCellTraced_pair)
    then show ?thesis
      using ok' srt keep by (simp add: traceInv_def)
  next
    case True
    then have eq: "writeCellTraced strNum cs wt p = (?w', tr @ [getCurrentOffset w])"
      by (auto simp: wt p writeCellTraced_pair)
    have len: "getCurrentOffset w = length (toArrayBuffer w)"
      using ok by (simp add: okWriter_def)
    have new: "toArrayBuffer ?w' = toArrayBuffer w @ replicate 8 0"
      using True by (intro toArrayBuffer_writeCell_string) simp
    have lt: "off < getCurrentOffset w" if "off \<in> set tr" for off
      using old [OF that] len by simp
    have "sorted_wrt (<) (tr @ [getCurrentOffset w])"
      using srt lt by (simp add: sorted_wrt_append)
    moreover have "getCurrentOffset w + 8 \<le> length (toArrayBuffer ?w')
        \<and> take 8 (drop (getCurrentOffset w) (toArrayBuffer ?w')) = replicate 8 0"
      by (simp add: new len)
    ultimately show ?thesis
      using ok' keep by (auto simp: eq traceInv_def)
  qed
qed

lemma traceInv_writeRowTraced:
  "traceInv wt \<Longrightarrow> traceInv (writeRowTraced strNum cols wt row)"
  unfolding writeRowTraced_def
  by (rule fold_invariant [where P = traceInv]) (rule traceInv_writeCellTraced)

lemma traceInv_writeSheetDataTraced:
  "traceInv wt \<Longrightarrow> traceInv (writeSheetDataTraced strNum wt sheet)"
  unfolding writeSheetDataTraced_def
  by (rule fold_invariant [where P = traceInv]) (rule traceInv_writeRowTraced)

lemma traceInv_writeExpaDataTraced:
  "traceInv wt \<Longrightarrow> traceInv (writeExpaDataTraced strNum wt F)"
  unfolding writeExpaDataTraced_def
  by (rule fold_invariant [where P = traceInv]) (rule traceInv_writeSheetDataTraced)

lemma okWriter_fold_types:
  "okWriter w \<Longrightarrow> okWriter (fold (\<lambda>t w. writeUint32 w (columnTypeValue t)) ts w)"
  by (rule fold_invariant [where P = okWriter]) (rule okWriter_writeUint32)

lemma okWriter_writeSheetHeader: "okWriter w \<Longrightarrow> okWriter (writeSheetHeader w info)"
  by (simp add: writeSheetHeader_def Let_def okWriter_writeUint32 okWriter_writeBytes
      okWriter_fold_types)

lemma okWriter_headerPhase: "okWriter (writer (headerPhase F))"
proof -
  have "okWriter (writeUint32 (writeBytes newWriter EXPA_MAGIC_BYTES) (length (sheets F)))"
    by (intro okWriter_writeUint32 okWriter_writeBytes okWriter_new)
  then have "okWriter (fold (\<lambda>info w. writeSheetHeader w info) (map structureInfoOf (sheets F))
                 (writeUint32 (writeBytes newWriter EXPA_MAGIC_BYTES) (length (sheets F))))"
    by (rule fold_invariant [where P = okWriter, rotated]) (rule okWriter_writeSheetHeader)
  then show ?thesis
    by (simp add: headerPhase_eq)
qed

lemma traceInv_phase3:
  "traceInv (writeExpaDataTraced strNum (writer (headerPhase F), []) F)"
  by (rule traceInv_writeExpaDataTraced) (simp add: traceInv_def okWriter_headerPhase)


subsection \<open>The bytes of the CHNK block\<close>

definition entryBytes :: "nat \<Rightarrow> ChnkRawString \<Rightarrow> byte list" where
  "entryBytes off e =
     u32le (targetExpaAbsoluteFileOffset e)
     @ u32le (paddingLoop (off + 8) (length (encodedBytes e)) 2)
     @ encodedBytes e
     @ replicate (paddingLoop (off + 8) (length (encodedBytes e)) 2 - length (encodedBytes e)) 0"

fun poolBytes :: "nat \<Rightarrow> ChnkRawString list \<Rightarrow> byte list" where
  "poolBytes off [] = []"
| "poolBytes off (e # es) = entryBytes off e @ poolBytes (off + length (entryBytes off e)) es"

lemma length_entryBytes:
  "length (entryBytes off e) = 8 + paddingLoop (off + 8) (length (encodedBytes e)) 2"
  using paddingLoop_ge [of "length (encodedBytes e)" "off + 8"]
  by (simp add: entryBytes_def)

lemma toArrayBuffer_writeChnkEntry:
  "toArrayBuffer (writeChnkEntry w e) = toArrayBuffer w @ entryBytes (getCurrentOffset w) e"
  by (simp add: writeChnkEntry_def Let_def entryBytes_def)

lemma getCurrentOffset_writeChnkEntry:
  "getCurrentOffset (writeChnkEntry w e)
     = getCurrentOffset w + length (entryBytes (getCurrentOffset w) e)"
  using paddingLoop_ge [of "length (encodedBytes e)" "getCurrentOffset w + 8"]
  by (simp add: writeChnkEntry_def Let_def length_entryBytes)

lemma toArrayBuffer_fold_writeChnkEntry:
  "toArrayBuffer (fold (\<lambda>rawEntry w. writeChnkEntry w rawEntry) es w)
     = toArrayBuffer w @ poolBytes (getCurrentOffset w) es"
  by (induction es arbitrary: w)
    (simp_all add: toArrayBuffer_writeChnkEntry getCurrentOffset_writeChnkEntry)

lemma toArrayBuffer_writeChnkBlock:
  "toArrayBuffer (writeChnkBlock w raw) =
     toArrayBuffer w @
     (if raw = [] then []
      else CHNK_MAGIC_BYTES @ u32le (length raw)
           @ poolBytes (getCurrentOffset w + 8) (sort_key targetExpaAbsoluteFileOffset raw))"
  by (simp add: writeChnkBlock_def toArrayBuffer_fold_writeChnkEntry CHNK_MAGIC_BYTES_def
      add.commute)

definition expaWriter :: "(jsstring \<Rightarrow> int) \<Rightarrow> MbeFile \<Rightarrow> ArrayBufferWriter" where
  "expaWriter strNum F = writeExpaData strNum (writer (headerPhase F)) F"

lemma generateMbeFile_layout:
  "generateMbeFile strNum F =
     toArrayBuffer (expaWriter strNum F) @
     (if chnkRawStrings (headerPhase F) = [] then []
      else CHNK_MAGIC_BYTES @ u32le (length (chnkRawStrings (headerPhase F)))
           @ poolBytes (getCurrentOffset (expaWriter strNum F) + 8) (sortedChnkRawStrings F))"
  by (simp add: generateMbeFile_def generatorRun_def Let_def toArrayBuffer_writeChnkBlock
      expaWriter_def sortedChnkRawStrings_def)

lemma traceInv_expaWriter:
  "traceInv (expaWriter strNum F, map targetExpaAbsoluteFileOffset (chnkRawStrings (headerPhase F)))"
  using traceInv_phase3 [of strNum F] targets_are_trace [of F strNum]
    fst_writeExpaDataTraced [of strNum "(writer (headerPhase F), [])" F]
  by (metis expaWriter_def fst_conv prod.collapse)

lemma targets_sorted:
  "sorted_wrt (<) (map targetExpaAbsoluteFileOffset (chnkRawStrings (headerPhase F)))"
  using traceInv_expaWriter [of "\<lambda>s. 0" F] by (simp add: traceInv_def)

lemma sortedChnkRawStrings_eq: "sortedChnkRawStrings F = chnkRawStrings (headerPhase F)"
  unfolding sortedChnkRawStrings_def
  by (intro sort_key_id_if_sorted strict_sorted_imp_sorted targets_sorted)

text \<open>
  Claim C7. The entries of the emitted pool are the collected entries in the order of
  collection (the sort changes nothing), and their target offsets increase strictly.
\<close>

theorem pool_offsets_increasing:
  "sorted_wrt (<) (map targetExpaAbsoluteFileOffset (sortedChnkRawStrings F))
   \<and> distinct (map targetExpaAbsoluteFileOffset (sortedChnkRawStrings F))
   \<and> sortedChnkRawStrings F = chnkRawStrings (headerPhase F)
   \<and> generateMbeFile strNum F =
       toArrayBuffer (expaWriter strNum F) @
       (if sortedChnkRawStrings F = [] then []
        else CHNK_MAGIC_BYTES @ u32le (length (sortedChnkRawStrings F))
             @ poolBytes (getCurrentOffset (expaWriter strNum F) + 8) (sortedChnkRawStrings F))"
proof -
  have s: "sorted_wrt (<) (map targetExpaAbsoluteFileOffset (sortedChnkRawStrings F))"
    by (simp add: sortedChnkRawStrings_eq targets_sorted)
  then have "distinct (map targetExpaAbsoluteFileOffset (sortedChnkRawStrings F))"
    by (rule strict_sorted_iff [THEN iffD1, THEN conjunct2])
  with s show ?thesis
    using generateMbeFile_layout [of strNum F] by (simp add: sortedChnkRawStrings_eq)
qed

text \<open>
  Claim C6. The eight bytes of the output at the target offset of an emitted pool entry are
  zero.
\<close>

theorem placeholder_is_zero:
  "\<forall>e\<in>set (sortedChnkRawStrings F).
     targetExpaAbsoluteFileOffset e + 8 \<le> length (generateMbeFile strNum F)
     \<and> take 8 (drop (targetExpaAbsoluteFileOffset e) (generateMbeFile strNum F)) = replicate 8 0"
proof
  fix e assume "e \<in> set (sortedChnkRawStrings F)"
  then have "targetExpaAbsoluteFileOffset e
      \<in> set (map targetExpaAbsoluteFileOffset (chnkRawStrings (headerPhase F)))"
    by (simp add: sortedChnkRawStrings_eq)
  with traceInv_expaWriter [of strNum F]
  have 1: "targetExpaAbsoluteFileOffset e + 8 \<le> length (toArrayBuffer (expaWriter strNum F))"
    and 2: "take 8 (drop (targetExpaAbsoluteFileOffset e) (toArrayBuffer (expaWriter strNum F)))
        = replicate 8 0"
    unfolding traceInv_def by auto
  obtain X where X: "generateMbeFile strNum F = toArrayBuffer (expaWriter strNum F) @ X"
    using generateMbeFile_layout by blast
  show "targetExpaAbsoluteFileOffset e + 8 \<le> length (generateMbeFile strNum F)
     \<and> take 8 (drop (targetExpaAbsoluteFileOffset e) (generateMbeFile strNum F)) = replicate 8 0"
    using 1 2 by (simp add: X)
qed


subsection \<open>Alignment\<close>

text \<open>Every chunk handed to the writer so far has a length that is a multiple of 4.\<close>

definition alignedWriter :: "ArrayBufferWriter \<Rightarrow> bool" where
  "alignedWriter w = (okWriter w \<and> list_all (\<lambda>b. length b mod 4 = 0) (buffers w))"

lemma length_concat_aligned:
  "list_all (\<lambda>b. length b mod 4 = 0) bs \<Longrightarrow> length (concat bs) mod 4 = 0"
proof (induction bs)
  case Nil
  then show ?case by simp
next
  case (Cons b bs)
  then have "length b mod 4 = 0" "length (concat bs) mod 4 = 0"
    by simp_all
  then show ?case
    by simp presburger
qed

lemma alignedWriter_offset: "alignedWriter w \<Longrightarrow> getCurrentOffset w mod 4 = 0"
  by (simp add: alignedWriter_def okWriter_def toArrayBuffer_def length_concat_aligned)

lemma alignedWriter_new: "alignedWriter newWriter"
  by (simp add: alignedWriter_def okWriter_new) (simp add: newWriter_def)

lemma alignedWriter_writeBytes:
  "alignedWriter w \<Longrightarrow> length bs mod 4 = 0 \<Longrightarrow> alignedWriter (writeBytes w bs)"
  by (simp add: alignedWriter_def okWriter_writeBytes)

lemma alignedWriter_writeUint32: "alignedWriter w \<Longrightarrow> alignedWriter (writeUint32 w v)"
  by (simp add: writeUint32_def alignedWriter_writeBytes)

lemma alignedWriter_writeInt32: "alignedWriter w \<Longrightarrow> alignedWriter (writeInt32 w v)"
  by (simp add: writeInt32_def alignedWriter_writeBytes)

lemma paddingLoop_mod:
  assumes "off mod 4 = 0"
  shows "paddingLoop (off + 4) L 2 mod 4 = 0" and "paddingLoop (off + 8) L 2 mod 4 = 0"
  using assms paddingLoop_aligned [of "off + 4" L] paddingLoop_aligned [of "off + 8" L]
  by presburger+

lemma alignedWriter_writeSheetHeader:
  assumes "alignedWriter w"
  shows "alignedWriter (writeSheetHeader w info)"
proof -
  let ?L = "length (encodedNameBytes info)"
  let ?P = "paddingLoop (getCurrentOffset w + 4) ?L 2"
  have P: "?P mod 4 = 0"
    using alignedWriter_offset [OF assms] by (rule paddingLoop_mod)
  have len: "length (encodedNameBytes info @ replicate (?P - ?L) 0) = ?P"
    using paddingLoop_ge [of ?L "getCurrentOffset w + 4"] by simp
  have 1: "alignedWriter (writeUint32 (writeBytes (writeUint32 w ?P)
              (encodedNameBytes info @ replicate (?P - ?L) 0)) (length (columnTypes info)))"
    using assms P len
    by (intro alignedWriter_writeUint32 alignedWriter_writeBytes) simp_all
  have "alignedWriter (fold (\<lambda>t w. writeUint32 w (columnTypeValue t)) (columnTypes info)
           (writeUint32 (writeBytes (writeUint32 w ?P)
              (encodedNameBytes info @ replicate (?P - ?L) 0)) (length (columnTypes info))))"
    by (rule fold_invariant [where P = alignedWriter, OF _ 1]) (rule alignedWriter_writeUint32)
  then show ?thesis
    by (simp add: writeSheetHeader_def Let_def alignedWriter_writeUint32)
qed

lemma alignedWriter_writeCell: "alignedWriter w \<Longrightarrow> alignedWriter (writeCell strNum cs w p)"
  by (simp add: writeCell_def Let_def alignedWriter_writeUint32 alignedWriter_writeInt32)

lemma alignedWriter_writeRow: "alignedWriter w \<Longrightarrow> alignedWriter (writeRow strNum cols w row)"
  unfolding writeRow_def
  by (rule fold_invariant [where P = alignedWriter]) (rule alignedWriter_writeCell)

lemma alignedWriter_writeSheetData:
  "alignedWriter w \<Longrightarrow> alignedWriter (writeSheetData strNum w sheet)"
  unfolding writeSheetData_def
  by (rule fold_invariant [where P = alignedWriter]) (rule alignedWriter_writeRow)

lemma alignedWriter_writeExpaData:
  "alignedWriter w \<Longrightarrow> alignedWriter (writeExpaData strNum w F)"
  unfolding writeExpaData_def
  by (rule fold_invariant [where P = alignedWriter]) (rule alignedWriter_writeSheetData)

lemma alignedWriter_writeChnkEntry:
  assumes "alignedWriter w"
  shows "alignedWriter (writeChnkEntry w e)"
proof -
  let ?L = "length (encodedBytes e)"
  let ?P = "paddingLoop (getCurrentOffset w + 8) ?L 2"
  have P: "?P mod 4 = 0"
    using alignedWriter_offset [OF assms] by (rule paddingLoop_mod)
  have len: "length (encodedBytes e @ replicate (?P - ?L) 0) = ?P"
    using paddingLoop_ge [of ?L "getCurrentOffset w + 8"] by simp
  show ?thesis
    unfolding writeChnkEntry_def Let_def using assms P len
    by (intro alignedWriter_writeBytes alignedWriter_writeUint32) simp_all
qed

lemma alignedWriter_writeChnkBlock:
  assumes "alignedWriter w"
  shows "alignedWriter (writeChnkBlock w raw)"
proof (cases "length raw > 0")
  case False
  then show ?thesis using assms by (simp add: writeChnkBlock_def)
next
  case True
  have 1: "alignedWriter (writeUint32 (writeBytes w CHNK_MAGIC_BYTES) (length raw))"
    using assms
    by (intro alignedWriter_writeUint32 alignedWriter_writeBytes) (simp_all add: CHNK_MAGIC_BYTES_def)
  have "alignedWriter (fold (\<lambda>rawEntry w. writeChnkEntry w rawEntry)
          (sort_key targetExpaAbsoluteFileOffset raw)
          (writeUint32 (writeBytes w CHNK_MAGIC_BYTES) (length raw)))"
    by (rule fold_invariant [where P = alignedWriter, OF _ 1]) (rule alignedWriter_writeChnkEntry)
  with True show ?thesis by (simp add: writeChnkBlock_def)
qed

lemma alignedWriter_headerPhase: "alignedWriter (writer (headerPhase F))"
proof -
  have 1: "alignedWriter (writeUint32 (writeBytes newWriter EXPA_MAGIC_BYTES) (length (sheets F)))"
    by (intro alignedWriter_writeUint32 alignedWriter_writeBytes alignedWriter_new)
      (simp add: EXPA_MAGIC_BYTES_def)
  have "alignedWriter (fold (\<lambda>info w. writeSheetHeader w info) (map structureInfoOf (sheets F))
                 (writeUint32 (writeBytes newWriter EXPA_MAGIC_BYTES) (length (sheets F))))"
    by (rule fold_invariant [where P = alignedWriter, OF _ 1]) (rule alignedWriter_writeSheetHeader)
  then show ?thesis
    by (simp add: headerPhase_eq)
qed

lemma alignedWriter_generatorRun: "alignedWriter (fst (generatorRun strNum F))"
  by (simp add: generatorRun_def Let_def alignedWriter_writeChnkBlock alignedWriter_writeExpaData
      alignedWriter_headerPhase)

lemma aligned_prefix:
  "list_all (\<lambda>b. length b mod 4 = 0) bs \<Longrightarrow> length (concat (take k bs)) mod 4 = 0"
  by (rule length_concat_aligned) (auto simp: list_all_iff dest: in_set_takeD)

text \<open>
  Claim C5. The output is the concatenation of the chunks handed to the writer; every
  \<^verbatim>\<open>u32\<close> or \<^verbatim>\<open>i32\<close> field is one chunk, written by \<^const>\<open>writeUint32\<close> or
  \<^const>\<open>writeInt32\<close>. Every chunk, hence every such field, starts at an offset that is a
  multiple of 4.
\<close>

theorem fields_aligned:
  "generateMbeFile strNum F = concat (buffers (fst (generatorRun strNum F)))
   \<and> (\<forall>k<length (buffers (fst (generatorRun strNum F))).
        length (concat (take k (buffers (fst (generatorRun strNum F))))) mod 4 = 0)"
  using alignedWriter_generatorRun [of strNum F]
  by (simp add: generateMbeFile_def toArrayBuffer_def alignedWriter_def aligned_prefix)


subsection \<open>Which cells enter the pool\<close>

text \<open>
  The texts of the cells under STR and STRID columns, in the order of the file: sheet by
  sheet, row by row, column by column. The text of a cell is \<^verbatim>\<open>String(cellValue)\<close>, which
  is the value itself when the cell holds a string.
\<close>

definition rowStringTexts :: "MbeColumn list \<Rightarrow> cell list \<Rightarrow> jsstring list" where
  "rowStringTexts cols cs =
     map (\<lambda>p. jsString (cellAt cs (snd p)))
       (filter (\<lambda>p. type (fst p) = STR' \<or> type (fst p) = STRID') (zip cols [0..<length cols]))"

definition stringCellTexts :: "MbeFile \<Rightarrow> jsstring list" where
  "stringCellTexts F =
     concat (map (\<lambda>sheet. concat (map (\<lambda>row. rowStringTexts (columns sheet) (cells row))
                                      (rows sheet)))
              (sheets F))"

lemma collectRow_texts:
  "map encodedBytes (collectRow cols cs c off []) =
     map textEncoder_encode (filter (\<lambda>s. s \<noteq> [])
       (map (\<lambda>p. jsString (cellAt cs (snd p)))
         (filter (\<lambda>p. type (fst p) = STR' \<or> type (fst p) = STRID')
            (zip cols [c..<c + length cols]))))"
proof (induction cols arbitrary: c off)
  case Nil
  then show ?case by simp
next
  case (Cons column cols)
  show ?case
    apply (subst zip_upt_Cons)
    apply (simp add: collectRow_Cons Cons.IH)
    done
qed

lemma collectRows_texts:
  "map encodedBytes (collectRows cols start stride rs r []) =
     map textEncoder_encode (filter (\<lambda>s. s \<noteq> [])
       (concat (map (\<lambda>row. rowStringTexts cols (cells row)) rs)))"
proof (induction rs arbitrary: r)
  case Nil
  then show ?case by simp
next
  case (Cons row rs)
  show ?case
    using collectRow_texts [of cols "cells row" 0 "start + r * stride"]
    by (simp add: collectRows_Cons Cons.IH rowStringTexts_def)
qed

lemma collectSheets_texts:
  "map encodedBytes (collectSheets ss start []) =
     map textEncoder_encode (filter (\<lambda>s. s \<noteq> [])
       (concat (map (\<lambda>sheet. concat (map (\<lambda>row. rowStringTexts (columns sheet) (cells row))
                                      (rows sheet))) ss)))"
proof (induction ss arbitrary: start)
  case Nil
  then show ?case by simp
next
  case (Cons s ss)
  show ?case
    by (simp add: collectSheets_Cons Cons.IH collectRows_texts)
qed

lemma chnkRawStrings_texts:
  "map encodedBytes (chnkRawStrings (headerPhase F)) =
     map textEncoder_encode (filter (\<lambda>s. s \<noteq> []) (stringCellTexts F))"
  by (simp add: headerPhase_eq collectSheets_texts stringCellTexts_def)

text \<open>
  Claim C8. The collected pool entries are, in order, the encoded texts of the cells under
  STR and STRID columns whose text is not empty: one entry for each such cell, none for a
  cell with the empty text. The magic \<^verbatim>\<open>"CHNK"\<close> and the entry count follow the EXPA data
  exactly when there is such a cell.
\<close>

theorem pool_entries:
  "map encodedBytes (chnkRawStrings (headerPhase F))
     = map textEncoder_encode (filter (\<lambda>s. s \<noteq> []) (stringCellTexts F))
   \<and> generateMbeFile strNum F =
       toArrayBuffer (expaWriter strNum F) @
       (if filter (\<lambda>s. s \<noteq> []) (stringCellTexts F) = [] then []
        else CHNK_MAGIC_BYTES @ u32le (length (filter (\<lambda>s. s \<noteq> []) (stringCellTexts F)))
             @ poolBytes (getCurrentOffset (expaWriter strNum F) + 8)
                 (chnkRawStrings (headerPhase F)))"
proof -
  have t: "map encodedBytes (chnkRawStrings (headerPhase F))
     = map textEncoder_encode (filter (\<lambda>s. s \<noteq> []) (stringCellTexts F))"
    by (rule chnkRawStrings_texts)
  then have "length (chnkRawStrings (headerPhase F))
      = length (filter (\<lambda>s. s \<noteq> []) (stringCellTexts F))"
    by (metis length_map)
  then show ?thesis
    using t generateMbeFile_layout [of strNum F]
    by (auto simp: sortedChnkRawStrings_eq)
qed

subsection \<open>Row identity tokens and the parsed row size\<close>

text \<open>Two files that differ at most in the identity tokens of their rows and in the
  \<^verbatim>\<open>parsedExpaAreaSizePerRow\<close> fields of their sheets.\<close>

definition sameSheetContent :: "MbeSheet \<Rightarrow> MbeSheet \<Rightarrow> bool" where
  "sameSheetContent s t =
     (name s = name t \<and> columns s = columns t \<and> map cells (rows s) = map cells (rows t))"

definition sameContent :: "MbeFile \<Rightarrow> MbeFile \<Rightarrow> bool" where
  "sameContent F G = list_all2 sameSheetContent (sheets F) (sheets G)"

lemma collectRows_cong:
  "map cells rs = map cells rs' \<Longrightarrow>
   collectRows cols start stride rs r acc = collectRows cols start stride rs' r acc"
proof (induction rs arbitrary: rs' r acc)
  case Nil
  then show ?case by simp
next
  case (Cons row rs)
  then obtain row' rs'' where rs': "rs' = row' # rs''" "cells row = cells row'"
    "map cells rs = map cells rs''"
    by (cases rs') auto
  show ?case
    using Cons.IH [OF rs'(3)] by (simp add: rs' collectRows_Cons)
qed

lemma writeRow_cong: "cells row = cells row' \<Longrightarrow> writeRow strNum cols w row = writeRow strNum cols w row'"
  by (simp add: writeRow_def)

lemma fold_writeRow_cong:
  "map cells rs = map cells rs' \<Longrightarrow>
   fold (\<lambda>row w. writeRow strNum cols w row) rs w = fold (\<lambda>row w. writeRow strNum cols w row) rs' w"
proof (induction rs arbitrary: rs' w)
  case Nil
  then show ?case by simp
next
  case (Cons row rs)
  then obtain row' rs'' where rs': "rs' = row' # rs''" "cells row = cells row'"
    "map cells rs = map cells rs''"
    by (cases rs') auto
  show ?case
    using Cons.IH [OF rs'(3)] writeRow_cong [OF rs'(2)] by (simp add: rs')
qed

lemma sameSheetContent_facts:
  assumes "sameSheetContent s t"
  shows "structureInfoOf s = structureInfoOf t"
    and "collectRows (columns s) start (rowWidth (columns s)) (rows s) r acc
       = collectRows (columns t) start (rowWidth (columns t)) (rows t) r acc"
    and "writeSheetData strNum w s = writeSheetData strNum w t"
    and "length (rows s) = length (rows t)"
proof -
  from assms have n: "name s = name t" and c: "columns s = columns t"
    and r: "map cells (rows s) = map cells (rows t)"
    by (simp_all add: sameSheetContent_def)
  from r show l: "length (rows s) = length (rows t)"
    by (rule map_eq_imp_length_eq)
  show "structureInfoOf s = structureInfoOf t"
    by (simp add: structureInfoOf_def n c l)
  show "collectRows (columns s) start (rowWidth (columns s)) (rows s) r acc
       = collectRows (columns t) start (rowWidth (columns t)) (rows t) r acc"
    using collectRows_cong [OF r] by (simp add: c)
  show "writeSheetData strNum w s = writeSheetData strNum w t"
    using fold_writeRow_cong [OF r] by (simp add: writeSheetData_def c)
qed

lemma sameContent_sheets:
  assumes "list_all2 sameSheetContent ss ts"
  shows "map structureInfoOf ss = map structureInfoOf ts"
    and "collectSheets ss start acc = collectSheets ts start acc"
    and "fold (\<lambda>sheet w. writeSheetData strNum w sheet) ss w
       = fold (\<lambda>sheet w. writeSheetData strNum w sheet) ts w"
  using assms
proof (induction ss ts arbitrary: start acc w rule: list_all2_induct)
  case Nil
  {
    case 1 show ?case by simp
  next
    case 2 show ?case by simp
  next
    case 3 show ?case by simp
  }
next
  case (Cons s ss t ts)
  note f = sameSheetContent_facts [OF Cons.hyps(1)]
  {
    case 1 show ?case using Cons.IH(1) f(1) by simp
  next
    case 2 show ?case
      using Cons.IH(2) f(2) [of start 0 "[]"] f(1) f(4)
      by (simp add: collectSheets_Cons) (metis structureInfoOf_simps(4))
  next
    case 3 show ?case using Cons.IH(3) f(3) by simp
  }
qed

text \<open>
  Claim C9. The generator is a function of its argument alone (the model has no clock and
  no state besides the writer it creates), and its output does not depend on the identity
  tokens of the rows nor on the \<^verbatim>\<open>parsedExpaAreaSizePerRow\<close> fields.
\<close>

theorem generate_ignores_ids:
  assumes "sameContent F G"
  shows "generateMbeFile strNum F = generateMbeFile strNum G"
proof -
  from assms have a: "list_all2 sameSheetContent (sheets F) (sheets G)"
    by (simp add: sameContent_def)
  note s = sameContent_sheets [OF a]
  have len: "length (sheets F) = length (sheets G)"
    using a by (rule list_all2_lengthD)
  have t: "totalHeaderSize F = totalHeaderSize G"
    by (simp add: totalHeaderSize_def preliminaryHeaderWriter_def sheetStructureInfos_eq s(1) len)
  have h: "writer (headerPhase F) = writer (headerPhase G)"
    "chnkRawStrings (headerPhase F) = chnkRawStrings (headerPhase G)"
    by (simp_all add: headerPhase_eq s(1) s(2) len t)
  show ?thesis
    by (simp add: generateMbeFile_def generatorRun_def Let_def h writeExpaData_def s(3))
qed



subsection \<open>A concrete file\<close>

text \<open>One sheet \<open>m\<close> with an INT and a STRID column and the row \<open>[7, "hi"]\<close>.\<close>

definition exampleStrNum :: "jsstring \<Rightarrow> int" where
  "exampleStrNum s = 0"

definition exampleFile :: MbeFile where
  "exampleFile =
     \<lparr>sheets = [\<lparr>name = ascii ''m'',
                 columns = [\<lparr>type = INT', typeName = TN_int\<rparr>,
                            \<lparr>type = STRID', typeName = TN_strID\<rparr>],
                 rows = [\<lparr>id' = ascii ''row-0-0-17'', cells = [Num 7, Str (ascii ''hi'')]\<rparr>],
                 parsedExpaAreaSizePerRow = 12\<rparr>]\<rparr>"

definition exampleFile' :: MbeFile where
  "exampleFile' =
     \<lparr>sheets = [\<lparr>name = ascii ''m'',
                 columns = [\<lparr>type = INT', typeName = TN_int\<rparr>,
                            \<lparr>type = STRID', typeName = TN_strID\<rparr>],
                 rows = [\<lparr>id' = ascii ''new-row-5'', cells = [Num 7, Str (ascii ''hi'')]\<rparr>],
                 parsedExpaAreaSizePerRow = 16\<rparr>]\<rparr>"

definition exampleBytes :: "byte list" where
  "exampleBytes =
     [0x45, 0x58, 0x50, 0x41, 1, 0, 0, 0,
      4, 0, 0, 0, 0x6D, 0, 0, 0, 2, 0, 0, 0, 2, 0, 0, 0, 8, 0, 0, 0, 12, 0, 0, 0, 1, 0, 0, 0,
      7, 0, 0, 0, 0, 0, 0, 0, 0, 0, 0, 0,
      0x43, 0x48, 0x4E, 0x4B, 1, 0, 0, 0,
      40, 0, 0, 0, 4, 0, 0, 0, 0x68, 0x69, 0, 0]"

lemma replicate_small:
  "replicate 2 x = [x, x]" "replicate 3 x = [x, x, x]" "replicate 4 x = [x, x, x, x]"
  "replicate 5 x = [x, x, x, x, x]"
  by (simp_all add: numeral_2_eq_2 numeral_3_eq_3 eval_nat_numeral)

lemma newWriter_simps:
  "toArrayBuffer newWriter = []" "getCurrentOffset newWriter = 0" "buffers newWriter = []"
  by (simp_all add: newWriter_def toArrayBuffer_def getCurrentOffset_def)

text \<open>Equations that evaluate the generator on a concrete file; the writer is read through
  \<^const>\<open>toArrayBuffer\<close>, \<^const>\<open>getCurrentOffset\<close> and \<^const>\<open>buffers\<close> only.\<close>

lemmas generator_defs =
  generateMbeFile_def generatorRun_def headerPhase_def headerStep_def totalHeaderSize_def
  preliminaryHeaderWriter_def preliminaryHeader_def sheetStructureInfos_def structureInfoOf_def
  calculatedExpaAreaSizePerRow_def writeSheetHeader_def writeExpaData_def writeSheetData_def
  writeRow_def writeCell_def writeChnkBlock_def writeChnkEntry_def newWriter_simps u32le_def
  i32le_def textEncoder_encode_def utf8_bytes_def scalarValue_def isSurrogate_def jsString_def
  jsNumber_def cellAt_def ascii_def EXPA_MAGIC_BYTES_def CHNK_MAGIC_BYTES_def
  paddingLoop_unrolled replicate_small collectRow.simps collectRows.simps
  sortedChnkRawStrings_def Let_def

lemma exampleFile_bytes: "generateMbeFile exampleStrNum exampleFile = exampleBytes"
  by (simp add: exampleFile_def exampleBytes_def exampleStrNum_def generator_defs)

lemma exampleFile_entries:
  "sortedChnkRawStrings exampleFile
     = [\<lparr>targetExpaAbsoluteFileOffset = 40, encodedBytes = [0x68, 0x69]\<rparr>]"
  by (simp add: exampleFile_def generator_defs)

lemma exampleFile_chunks: "length (buffers (fst (generatorRun exampleStrNum exampleFile))) = 17"
  by (simp add: exampleFile_def exampleStrNum_def generator_defs)

theorem fields_aligned_witness:
  "12 < length (buffers (fst (generatorRun exampleStrNum exampleFile)))
   \<and> length (concat (take 12 (buffers (fst (generatorRun exampleStrNum exampleFile))))) mod 4 = 0"
  using fields_aligned [of exampleStrNum exampleFile] by (simp add: exampleFile_chunks)

theorem placeholder_is_zero_witness:
  "sortedChnkRawStrings exampleFile
     = [\<lparr>targetExpaAbsoluteFileOffset = 40, encodedBytes = [0x68, 0x69]\<rparr>]
   \<and> take 8 (drop 40 (generateMbeFile exampleStrNum exampleFile)) = replicate 8 0"
  using placeholder_is_zero [of exampleFile exampleStrNum] by (simp add: exampleFile_entries)

theorem generate_ignores_ids_witness:
  "sameContent exampleFile exampleFile' \<and> exampleFile \<noteq> exampleFile'
   \<and> generateMbeFile exampleStrNum exampleFile = generateMbeFile exampleStrNum exampleFile'"
proof -
  have s: "sameContent exampleFile exampleFile'"
    by (simp add: sameContent_def sameSheetContent_def exampleFile_def exampleFile'_def)
  have "exampleFile \<noteq> exampleFile'"
    by (simp add: exampleFile_def exampleFile'_def)
  with s generate_ignores_ids [OF s, of exampleStrNum] show ?thesis
    by simp
qed


section \<open>Properties of the parser\<close>

subsection \<open>The magic check\<close>

lemma checkMagic_eq:
  "checkMagic view ms i =
     (if prefix ms (drop i view) then Inr ()
      else if prefix (drop i view) ms then Inl RangeError
      else Inl InvalidMagic)"
proof (induction ms arbitrary: i)
  case Nil
  then show ?case by simp
next
  case (Cons m ms)
  show ?case
  proof (cases "i < length view")
    case False
    then show ?thesis by (simp add: getUint8_def)
  next
    case True
    then have d: "drop i view = view ! i # drop (Suc i) view"
      by (simp add: Cons_nth_drop_Suc)
    show ?thesis
      using True by (auto simp: getUint8_def d Cons.IH word_unat_eq_iff)
  qed
qed

lemma prefix_take4:
  "length ms = 4 \<Longrightarrow> prefix ms view \<longleftrightarrow> take 4 view = ms"
  by (metis append_eq_conv_conj prefix_def)

lemma checkMagic_EXPA:
  "checkMagic view EXPA_MAGIC_BYTES 0 =
     (if take 4 view = EXPA_MAGIC_BYTES then Inr ()
      else if prefix view EXPA_MAGIC_BYTES then Inl RangeError
      else Inl InvalidMagic)"
  by (simp add: checkMagic_eq prefix_take4 EXPA_MAGIC_BYTES_def)

subsection \<open>The header layout of the wire format\<close>

text \<open>
  Section 6.1 of the specification: a sheet header at offset \<open>off\<close> is a \<^verbatim>\<open>u32\<close> name
  length, that many bytes of name, a \<^verbatim>\<open>u32\<close> column count, one \<^verbatim>\<open>u32\<close> type tag for each
  column, and the two \<^verbatim>\<open>u32\<close> fields expaAreaSizePerRow and expaRowCount. The predicates
  below are written from this layout, not from the parser: a header that lies within the
  buffer with valid tags only, a header cut by the end of the buffer (at the first field
  that does not fit), and a header whose first invalid tag is the value \<open>v\<close> of column \<open>j\<close>.
\<close>

definition nameLenAt :: "byte list \<Rightarrow> nat \<Rightarrow> nat" where
  "nameLenAt view off = uint32At view off"

definition columnCountAt :: "byte list \<Rightarrow> nat \<Rightarrow> nat" where
  "columnCountAt view off = uint32At view (off + 4 + nameLenAt view off)"

definition tagOffset :: "byte list \<Rightarrow> nat \<Rightarrow> nat \<Rightarrow> nat" where
  "tagOffset view off j = off + 4 + nameLenAt view off + 4 + 4 * j"

definition tagValid :: "byte list \<Rightarrow> nat \<Rightarrow> nat \<Rightarrow> bool" where
  "tagValid view off j =
     (tagOffset view off j + 4 \<le> length view
      \<and> uint32At view (tagOffset view off j) \<in> {2, 7, 8})"

definition headerEnd :: "byte list \<Rightarrow> nat \<Rightarrow> nat" where
  "headerEnd view off = tagOffset view off (columnCountAt view off) + 8"

definition countsFit :: "byte list \<Rightarrow> nat \<Rightarrow> bool" where
  "countsFit view off =
     (off + 4 \<le> length view \<and> off + 4 + nameLenAt view off + 4 \<le> length view)"

definition headerComplete :: "byte list \<Rightarrow> nat \<Rightarrow> bool" where
  "headerComplete view off =
     (countsFit view off \<and> (\<forall>j<columnCountAt view off. tagValid view off j)
      \<and> headerEnd view off \<le> length view)"

definition headerCut :: "byte list \<Rightarrow> nat \<Rightarrow> bool" where
  "headerCut view off =
     (\<not> countsFit view off
      \<or> (\<exists>j<columnCountAt view off. (\<forall>j'<j. tagValid view off j')
            \<and> length view < tagOffset view off j + 4)
      \<or> ((\<forall>j<columnCountAt view off. tagValid view off j)
           \<and> length view < headerEnd view off))"

definition headerBadTag :: "byte list \<Rightarrow> nat \<Rightarrow> nat \<Rightarrow> nat \<Rightarrow> bool" where
  "headerBadTag view off v j =
     (countsFit view off \<and> j < columnCountAt view off \<and> (\<forall>j'<j. tagValid view off j')
      \<and> tagOffset view off j + 4 \<le> length view
      \<and> uint32At view (tagOffset view off j) = v \<and> v \<noteq> 2 \<and> v \<noteq> 7 \<and> v \<noteq> 8)"

text \<open>The error with which a header that is not complete makes the parser stop.\<close>

definition headerFailure :: "byte list \<Rightarrow> nat \<Rightarrow> parseError \<Rightarrow> bool" where
  "headerFailure view off e =
     ((headerCut view off \<and> e = RangeError)
      \<or> (\<exists>v j. headerBadTag view off v j
            \<and> e = UnknownColumnType v (fst (readString view (off + 4) (nameLenAt view off))) j))"

text \<open>\<open>headersFrom view off k off'\<close>: \<open>k\<close> complete headers lie back to back from \<open>off\<close>
  to \<open>off'\<close>.\<close>

inductive headersFrom :: "byte list \<Rightarrow> nat \<Rightarrow> nat \<Rightarrow> nat \<Rightarrow> bool" where
  none: "headersFrom view off 0 off"
| more: "headerComplete view off \<Longrightarrow> headersFrom view (headerEnd view off) k off'
         \<Longrightarrow> headersFrom view off (Suc k) off'"

text \<open>The two fields that close a header, and the size of the EXPA data that \<open>k\<close> headers
  from \<open>off\<close> declare: the data blocks follow the last header, and the search for the
  magic \<^verbatim>\<open>"CHNK"\<close> starts behind them.\<close>

definition areaAt :: "byte list \<Rightarrow> nat \<Rightarrow> nat" where
  "areaAt view off = uint32At view (tagOffset view off (columnCountAt view off))"

definition rowCountAt :: "byte list \<Rightarrow> nat \<Rightarrow> nat" where
  "rowCountAt view off = uint32At view (tagOffset view off (columnCountAt view off) + 4)"

fun declaredData :: "byte list \<Rightarrow> nat \<Rightarrow> nat \<Rightarrow> nat" where
  "declaredData view off 0 = 0"
| "declaredData view off (Suc k) =
     areaAt view off * rowCountAt view off + declaredData view (headerEnd view off) k"

definition magicAt :: "byte list \<Rightarrow> byte list \<Rightarrow> nat \<Rightarrow> bool" where
  "magicAt view ms off = (off + length ms \<le> length view \<and> take (length ms) (drop off view) = ms)"

definition firstMagic :: "byte list \<Rightarrow> byte list \<Rightarrow> nat \<Rightarrow> nat \<Rightarrow> bool" where
  "firstMagic view ms start mo =
     (start \<le> mo \<and> magicAt view ms mo \<and> (\<forall>k. start \<le> k \<and> k < mo \<longrightarrow> \<not> magicAt view ms k))"

text \<open>The headers are complete, and the first \<^verbatim>\<open>"CHNK"\<close> behind the declared data is followed
  by fewer than four bytes, so that the entry count cannot be read.\<close>

definition chnkCountCut :: "byte list \<Rightarrow> bool" where
  "chnkCountCut view =
     (\<exists>off mo. headersFrom view 8 (uint32At view 4) off
        \<and> firstMagic view CHNK_MAGIC_BYTES (off + declaredData view 8 (uint32At view 4)) mo
        \<and> length view < mo + 8)"

lemma header_trichotomy:
  "headerComplete view off \<or> headerCut view off \<or> (\<exists>v j. headerBadTag view off v j)"
proof (cases "countsFit view off")
  case False
  then show ?thesis by (simp add: headerCut_def)
next
  case True
  show ?thesis
  proof (cases "\<forall>j<columnCountAt view off. tagValid view off j")
    case all: True
    with True show ?thesis
      by (auto simp: headerComplete_def headerCut_def not_le)
  next
    case False
    then have ex: "\<exists>j. j < columnCountAt view off \<and> \<not> tagValid view off j"
      by blast
    define j where "j = (LEAST j. j < columnCountAt view off \<and> \<not> tagValid view off j)"
    from LeastI_ex [OF ex] have j: "j < columnCountAt view off" "\<not> tagValid view off j"
      by (simp_all add: j_def)
    have before: "tagValid view off j'" if "j' < j" for j'
      using not_less_Least [of j' "\<lambda>j. j < columnCountAt view off \<and> \<not> tagValid view off j"]
        that j(1) by (auto simp: j_def)
    show ?thesis
    proof (cases "tagOffset view off j + 4 \<le> length view")
      case False
      with j(1) before show ?thesis
        by (auto simp: headerCut_def not_le)
    next
      case in_bounds: True
      with j(2) have "uint32At view (tagOffset view off j) \<notin> {2, 7, 8}"
        by (simp add: tagValid_def)
      with True j(1) before in_bounds
      have "headerBadTag view off (uint32At view (tagOffset view off j)) j"
        by (simp add: headerBadTag_def)
      then show ?thesis by blast
    qed
  qed
qed


subsection \<open>The header pass against the layout\<close>

lemma readColumns_step:
  assumes "j < n" and "off + 4 \<le> length view" and "uint32At view off \<in> {2, 7, 8}"
  shows "\<exists>cols'. readColumns view nm n j off cols = readColumns view nm n (Suc j) (off + 4) cols'"
proof -
  have g: "getUint32 view off = Inr (uint32At view off)"
    using assms(2) by (simp add: getUint32_def)
  from assms(3) consider "uint32At view off = 2" | "uint32At view off = 7" | "uint32At view off = 8"
    by auto
  then show ?thesis
  proof cases
    case 1
    have "readColumns view nm n j off cols
            = readColumns view nm n (Suc j) (off + 4) (cols @ [\<lparr>type = INT', typeName = TN_int\<rparr>])"
      by (subst readColumns.simps) (simp add: assms(1) g 1)
    then show ?thesis by blast
  next
    case 2
    have "readColumns view nm n j off cols
            = readColumns view nm n (Suc j) (off + 4) (cols @ [\<lparr>type = STR', typeName = TN_str\<rparr>])"
      by (subst readColumns.simps) (simp add: assms(1) g 2)
    then show ?thesis by blast
  next
    case 3
    have "readColumns view nm n j off cols
            = readColumns view nm n (Suc j) (off + 4) (cols @ [\<lparr>type = STRID', typeName = TN_strID\<rparr>])"
      by (subst readColumns.simps) (simp add: assms(1) g 3)
    then show ?thesis by blast
  qed
qed

lemma readColumns_chain:
  assumes "j \<le> k" and "k \<le> n"
    and "\<And>j'. j \<le> j' \<Longrightarrow> j' < k \<Longrightarrow>
           base + 4 * j' + 4 \<le> length view \<and> uint32At view (base + 4 * j') \<in> {2, 7, 8}"
  shows "\<exists>cols'. readColumns view nm n j (base + 4 * j) cols
           = readColumns view nm n k (base + 4 * k) cols'"
  using assms
proof (induction "k - j" arbitrary: j cols)
  case 0
  then have "j = k" by simp
  then show ?case by blast
next
  case (Suc d)
  then have j: "j < k" "j < n" by simp_all
  from Suc.prems(3) [of j] j have v: "base + 4 * j + 4 \<le> length view"
    "uint32At view (base + 4 * j) \<in> {2, 7, 8}"
    by simp_all
  have o: "base + 4 * j + 4 = base + 4 * Suc j"
    by simp
  from readColumns_step [OF j(2) v, of nm cols] obtain cols1
    where s: "readColumns view nm n j (base + 4 * j) cols
                = readColumns view nm n (Suc j) (base + 4 * Suc j) cols1"
    unfolding o by blast
  have "\<exists>cols'. readColumns view nm n (Suc j) (base + 4 * Suc j) cols1
           = readColumns view nm n k (base + 4 * k) cols'"
  proof (rule Suc.hyps(1))
    show "d = k - Suc j" using Suc.hyps(2) by simp
    show "Suc j \<le> k" using j by simp
    show "k \<le> n" by (rule Suc.prems(2))
    show "base + 4 * j' + 4 \<le> length view \<and> uint32At view (base + 4 * j') \<in> {2, 7, 8}"
      if "Suc j \<le> j'" "j' < k" for j'
      using Suc.prems(3) [of j'] that by simp
  qed
  with s show ?case by simp
qed


lemma readColumns_all:
  assumes "\<And>j. j < n \<Longrightarrow>
             base + 4 * j + 4 \<le> length view \<and> uint32At view (base + 4 * j) \<in> {2, 7, 8}"
  shows "\<exists>cols. readColumns view nm n 0 base [] = Inr (cols, base + 4 * n)"
proof -
  from readColumns_chain [of 0 n n base view nm "[]"] assms obtain cols
    where "readColumns view nm n 0 base [] = readColumns view nm n n (base + 4 * n) cols"
    by auto
  then show ?thesis
    by (simp add: readColumns.simps [of _ _ n n])
qed

lemma readColumns_cut:
  assumes "k < n" and "length view < base + 4 * k + 4"
    and "\<And>j. j < k \<Longrightarrow>
             base + 4 * j + 4 \<le> length view \<and> uint32At view (base + 4 * j) \<in> {2, 7, 8}"
  shows "readColumns view nm n 0 base [] = Inl RangeError"
proof -
  from readColumns_chain [of 0 k n base view nm "[]"] assms obtain cols
    where "readColumns view nm n 0 base [] = readColumns view nm n k (base + 4 * k) cols"
    by auto
  then show ?thesis
    using assms(1,2) by (simp add: readColumns.simps [of _ _ n k] getUint32_def)
qed

lemma readColumns_bad:
  assumes "k < n" and "base + 4 * k + 4 \<le> length view"
    and "uint32At view (base + 4 * k) = v" and "v \<noteq> 2" "v \<noteq> 7" "v \<noteq> 8"
    and "\<And>j. j < k \<Longrightarrow>
             base + 4 * j + 4 \<le> length view \<and> uint32At view (base + 4 * j) \<in> {2, 7, 8}"
  shows "readColumns view nm n 0 base [] = Inl (UnknownColumnType v nm k)"
proof -
  from readColumns_chain [of 0 k n base view nm "[]"] assms obtain cols
    where "readColumns view nm n 0 base [] = readColumns view nm n k (base + 4 * k) cols"
    by auto
  then show ?thesis
    using assms(1-6) by (simp add: readColumns.simps [of _ _ n k] getUint32_def)
qed

lemma readHeaders_counts:
  assumes "i < n" and "countsFit view off"
  shows "readHeaders view n i off acc ws =
     (case readColumns view (fst (readString view (off + 4) (nameLenAt view off)))
             (columnCountAt view off) 0 (tagOffset view off 0) [] of
        Inl e \<Rightarrow> Inl e
      | Inr (cols, off3) \<Rightarrow>
          (case getUint32 view off3 of
             Inl e \<Rightarrow> Inl e
           | Inr areaSize \<Rightarrow>
               (case getUint32 view (off3 + 4) of
                  Inl e \<Rightarrow> Inl e
                | Inr rowCnt \<Rightarrow>
                    readHeaders view n (i + 1) (off3 + 8)
                      (acc @ [\<lparr>headerName = fst (readString view (off + 4) (nameLenAt view off)),
                               headerColumns = cols, headerExpaAreaSizePerRow = areaSize,
                               expaRowCount = rowCnt, sheetExpaDataStartOffset = None\<rparr>])
                      (ws @ snd (readString view (off + 4) (nameLenAt view off))))))"
proof -
  have g: "getUint32 view off = Inr (uint32At view off)"
    "getUint32 view (off + 4 + uint32At view off) = Inr (uint32At view (off + 4 + uint32At view off))"
    using assms(2) by (simp_all add: countsFit_def nameLenAt_def getUint32_def)
  show ?thesis
    unfolding nameLenAt_def columnCountAt_def tagOffset_def
    by (subst readHeaders.simps) (simp add: assms(1) g Let_def)
qed

lemma tagOffset_eq: "tagOffset view off j = tagOffset view off 0 + 4 * j"
  by (simp add: tagOffset_def)

lemma tagValid_eq:
  "tagValid view off j \<longleftrightarrow>
     tagOffset view off 0 + 4 * j + 4 \<le> length view
     \<and> uint32At view (tagOffset view off 0 + 4 * j) \<in> {2, 7, 8}"
  unfolding tagValid_def tagOffset_eq [of view off j] ..

lemma readHeaders_complete:
  assumes "i < n" and "headerComplete view off"
  shows "\<exists>h w. readHeaders view n i off acc ws
           = readHeaders view n (Suc i) (headerEnd view off) (acc @ [h]) (ws @ w)
         \<and> headerExpaAreaSizePerRow h = areaAt view off \<and> expaRowCount h = rowCountAt view off"
proof -
  from assms(2) have c: "countsFit view off"
    and t: "\<And>j. j < columnCountAt view off \<Longrightarrow> tagValid view off j"
    and e: "headerEnd view off \<le> length view"
    by (simp_all add: headerComplete_def)
  let ?nm = "fst (readString view (off + 4) (nameLenAt view off))"
  let ?off3 = "tagOffset view off 0 + 4 * columnCountAt view off"
  from readColumns_all [of "columnCountAt view off" "tagOffset view off 0" view ?nm] t
  obtain cols where r: "readColumns view ?nm (columnCountAt view off) 0 (tagOffset view off 0) []
      = Inr (cols, ?off3)"
    unfolding tagValid_eq by blast
  have he: "headerEnd view off = ?off3 + 8"
    unfolding headerEnd_def tagOffset_eq [of view off "columnCountAt view off"] ..
  have ar: "areaAt view off = uint32At view ?off3" "rowCountAt view off = uint32At view (?off3 + 4)"
    unfolding areaAt_def rowCountAt_def tagOffset_eq [of view off "columnCountAt view off"]
    by (rule refl)+
  have g: "getUint32 view ?off3 = Inr (uint32At view ?off3)"
    "getUint32 view (?off3 + 4) = Inr (uint32At view (?off3 + 4))"
    using e unfolding he by (simp_all add: getUint32_def)
  let ?h = "\<lparr>headerName = ?nm, headerColumns = cols,
             headerExpaAreaSizePerRow = uint32At view ?off3,
             expaRowCount = uint32At view (?off3 + 4), sheetExpaDataStartOffset = None\<rparr>"
  have "readHeaders view n i off acc ws
           = readHeaders view n (Suc i) (headerEnd view off) (acc @ [?h])
               (ws @ snd (readString view (off + 4) (nameLenAt view off)))"
    unfolding readHeaders_counts [OF assms(1) c] r he
    by (simp only: sum.case prod.case g Suc_eq_plus1)
  moreover have "headerExpaAreaSizePerRow ?h = areaAt view off" "expaRowCount ?h = rowCountAt view off"
    by (simp_all add: ar)
  ultimately show ?thesis by blast
qed

lemma readHeaders_cut:
  assumes "i < n" and "headerCut view off"
  shows "readHeaders view n i off acc ws = Inl RangeError"
proof (cases "countsFit view off")
  case False
  then show ?thesis
    using assms(1)
    by (subst readHeaders.simps)
       (auto simp: countsFit_def nameLenAt_def getUint32_def Let_def not_le)
next
  case c: True
  let ?nm = "fst (readString view (off + 4) (nameLenAt view off))"
  let ?off3 = "tagOffset view off 0 + 4 * columnCountAt view off"
  from assms(2) c consider
    (tag) j where "j < columnCountAt view off" "\<And>j'. j' < j \<Longrightarrow> tagValid view off j'"
      "length view < tagOffset view off j + 4"
    | (tail) "\<And>j. j < columnCountAt view off \<Longrightarrow> tagValid view off j"
      "length view < headerEnd view off"
    by (auto simp: headerCut_def)
  then show ?thesis
  proof cases
    case tag
    have "readColumns view ?nm (columnCountAt view off) 0 (tagOffset view off 0) [] = Inl RangeError"
    proof (rule readColumns_cut [OF tag(1)])
      show "length view < tagOffset view off 0 + 4 * j + 4"
        using tag(3) unfolding tagOffset_eq [of view off j] .
      show "tagOffset view off 0 + 4 * j' + 4 \<le> length view
            \<and> uint32At view (tagOffset view off 0 + 4 * j') \<in> {2, 7, 8}" if "j' < j" for j'
        using tag(2) [OF that] unfolding tagValid_eq .
    qed
    then show ?thesis
      unfolding readHeaders_counts [OF assms(1) c] by simp
  next
    case tail
    from readColumns_all [of "columnCountAt view off" "tagOffset view off 0" view ?nm] tail(1)
    obtain cols where r: "readColumns view ?nm (columnCountAt view off) 0 (tagOffset view off 0) []
        = Inr (cols, ?off3)"
      unfolding tagValid_eq by blast
    have he: "headerEnd view off = ?off3 + 8"
      unfolding headerEnd_def tagOffset_eq [of view off "columnCountAt view off"] ..
    show ?thesis
      unfolding readHeaders_counts [OF assms(1) c] r
      using tail(2) unfolding he by (auto simp: getUint32_def)
  qed
qed

lemma readHeaders_badTag:
  assumes "i < n" and "headerBadTag view off v j"
  shows "readHeaders view n i off acc ws
           = Inl (UnknownColumnType v (fst (readString view (off + 4) (nameLenAt view off))) j)"
proof -
  let ?nm = "fst (readString view (off + 4) (nameLenAt view off))"
  from assms(2) have c: "countsFit view off" and j: "j < columnCountAt view off"
    and t: "\<And>j'. j' < j \<Longrightarrow> tagValid view off j'"
    and b: "tagOffset view off j + 4 \<le> length view"
    and v: "uint32At view (tagOffset view off j) = v" "v \<noteq> 2" "v \<noteq> 7" "v \<noteq> 8"
    by (simp_all add: headerBadTag_def)
  have "readColumns view ?nm (columnCountAt view off) 0 (tagOffset view off 0) []
          = Inl (UnknownColumnType v ?nm j)"
  proof (rule readColumns_bad [OF j _ _ v(2-4)])
    show "tagOffset view off 0 + 4 * j + 4 \<le> length view"
      using b unfolding tagOffset_eq [of view off j] .
    show "uint32At view (tagOffset view off 0 + 4 * j) = v"
      using v(1) unfolding tagOffset_eq [of view off j] .
    show "tagOffset view off 0 + 4 * j' + 4 \<le> length view
          \<and> uint32At view (tagOffset view off 0 + 4 * j') \<in> {2, 7, 8}" if "j' < j" for j'
      using t [OF that] unfolding tagValid_eq .
  qed
  then show ?thesis
    unfolding readHeaders_counts [OF assms(1) c] by simp
qed

lemma readHeaders_chain:
  assumes "headersFrom view off k off'" and "i + k \<le> n"
  shows "\<exists>acc' ws'. readHeaders view n i off acc ws = readHeaders view n (i + k) off' acc' ws'"
  using assms
proof (induction arbitrary: i acc ws rule: headersFrom.induct)
  case (none view off)
  then show ?case by auto
next
  case (more view off k off')
  from more.prems have i: "i < n" by simp
  from readHeaders_complete [OF i more.hyps(1), of acc ws] obtain h w
    where s: "readHeaders view n i off acc ws
                = readHeaders view n (Suc i) (headerEnd view off) (acc @ [h]) (ws @ w)"
    by blast
  from more.IH [of "Suc i" "acc @ [h]" "ws @ w"] more.prems
  show ?case unfolding s by simp
qed

lemma readHeaders_failure:
  assumes "i < n" and "headerFailure view off e"
  shows "readHeaders view n i off acc ws = Inl e"
  using assms(2) readHeaders_cut [OF assms(1)] readHeaders_badTag [OF assms(1)]
  by (auto simp: headerFailure_def)

lemma header_cases:
  "headerComplete view off \<or> (\<exists>e. headerFailure view off e)"
  using header_trichotomy [of view off] by (auto simp: headerFailure_def)

lemma headers_total:
  "i \<le> n \<Longrightarrow>
   (\<exists>off'. headersFrom view off (n - i) off')
   \<or> (\<exists>e k off'. i + k < n \<and> headersFrom view off k off' \<and> headerFailure view off' e)"
proof (induction "n - i" arbitrary: i off)
  case 0
  then show ?case by (auto intro: headersFrom.none)
next
  case (Suc d)
  then have i: "i < n" by simp
  from header_cases [of view off] show ?case
  proof
    assume c: "headerComplete view off"
    have "(\<exists>off'. headersFrom view (headerEnd view off) (n - Suc i) off')
          \<or> (\<exists>e k off'. Suc i + k < n \<and> headersFrom view (headerEnd view off) k off'
                \<and> headerFailure view off' e)"
      using Suc.hyps(1) [of "Suc i" "headerEnd view off"] Suc.hyps(2) i by auto
    then consider (ok) off' where "headersFrom view (headerEnd view off) (n - Suc i) off'"
      | (bad) e k off' where "Suc i + k < n" "headersFrom view (headerEnd view off) k off'"
          "headerFailure view off' e"
      by blast
    then show ?thesis
    proof cases
      case ok
      from headersFrom.more [OF c this] i have "headersFrom view off (n - i) off'"
        by (simp add: Suc_diff_Suc)
      then show ?thesis by blast
    next
      case bad
      from headersFrom.more [OF c bad(2)] have "headersFrom view off (Suc k) off'" .
      moreover from bad(1) have "i + Suc k < n" by simp
      ultimately show ?thesis using bad(3) by blast
    qed
  next
    assume "\<exists>e. headerFailure view off e"
    then obtain e where "headerFailure view off e" ..
    with i headersFrom.none [of view off]
    have "i + 0 < n \<and> headersFrom view off 0 off \<and> headerFailure view off e"
      by simp
    then show ?thesis by blast
  qed
qed

lemma readHeaders_Inl_iff:
  assumes "i \<le> n"
  shows "readHeaders view n i off acc ws = Inl e \<longleftrightarrow>
           (\<exists>k off'. i + k < n \<and> headersFrom view off k off' \<and> headerFailure view off' e)"
    (is "?l \<longleftrightarrow> ?r e")
proof -
  have fails: "readHeaders view n i off acc ws = Inl e'" if "?r e'" for e'
  proof -
    from that obtain k off' where k: "i + k < n" "headersFrom view off k off'"
      and c: "headerFailure view off' e'"
      by blast
    from readHeaders_chain [OF k(2), of i n acc ws] k(1) obtain acc' ws'
      where s: "readHeaders view n i off acc ws = readHeaders view n (i + k) off' acc' ws'"
      by auto
    show ?thesis
      unfolding s by (rule readHeaders_failure [OF k(1) c])
  qed
  show ?thesis
  proof
    assume l: ?l
    from headers_total [OF assms, of view off] show "?r e"
    proof
      assume "\<exists>off'. headersFrom view off (n - i) off'"
      then obtain off' where "headersFrom view off (n - i) off'" ..
      from readHeaders_chain [OF this, of i n acc ws] assms obtain acc' ws'
        where s: "readHeaders view n i off acc ws = readHeaders view n n off' acc' ws'"
        by auto
      from l show ?thesis
        unfolding s by (simp add: readHeaders.simps [of _ n n])
    next
      assume "\<exists>e k off'. i + k < n \<and> headersFrom view off k off' \<and> headerFailure view off' e"
      then obtain e' where e': "?r e'" by blast
      from fails [OF e'] l have "e' = e" by simp
      with e' show ?thesis by simp
    qed
  next
    assume "?r e"
    then show ?l by (rule fails)
  qed
qed

lemma readHeaders_Inr_iff:
  assumes "i \<le> n"
  shows "(\<exists>r. readHeaders view n i off acc ws = Inr r) \<longleftrightarrow> (\<exists>off'. headersFrom view off (n - i) off')"
proof
  assume "\<exists>r. readHeaders view n i off acc ws = Inr r"
  then have "\<not> (\<exists>e. readHeaders view n i off acc ws = Inl e)"
    by auto
  then have "\<not> (\<exists>e k off'. i + k < n \<and> headersFrom view off k off' \<and> headerFailure view off' e)"
    unfolding readHeaders_Inl_iff [OF assms] by blast
  with headers_total [OF assms, of view off] show "\<exists>off'. headersFrom view off (n - i) off'"
    by blast
next
  assume "\<exists>off'. headersFrom view off (n - i) off'"
  then obtain off' where "headersFrom view off (n - i) off'" ..
  from readHeaders_chain [OF this, of i n acc ws] assms obtain acc' ws'
    where s: "readHeaders view n i off acc ws = readHeaders view n n off' acc' ws'"
    by auto
  show "\<exists>r. readHeaders view n i off acc ws = Inr r"
    unfolding s by (simp add: readHeaders.simps [of _ n n])
qed

subsection \<open>The CHNK block\<close>

lemma parseChnk_Inl:
  "parseChnk view start = Inl e \<longleftrightarrow>
     (e = RangeError
      \<and> (\<exists>mo. findMagic view CHNK_MAGIC_BYTES start = Some mo \<and> length view < mo + 8))"
  by (auto simp: parseChnk_def getUint32_def CHNK_MAGIC_BYTES_def split: option.splits if_splits)

subsection \<open>Pass 3 never fails\<close>

lemma assignStarts_Some:
  "h \<in> set (fst (assignStarts hs off)) \<Longrightarrow> sheetExpaDataStartOffset h \<noteq> None"
  by (induction hs arbitrary: off) (auto simp: Let_def)

lemma length_assignStarts: "length (fst (assignStarts hs off)) = length hs"
  by (induction hs arbitrary: off) (simp_all add: Let_def)

lemma readSheets_total:
  "(\<And>h. h \<in> set hs \<Longrightarrow> sheetExpaDataStartOffset h \<noteq> None) \<Longrightarrow>
   \<exists>ss ws. readSheets now view m i hs = Inr (ss, ws) \<and> length ss = length hs"
proof (induction hs arbitrary: i)
  case Nil
  then show ?case by simp
next
  case (Cons h hs)
  from Cons.prems obtain start where st: "sheetExpaDataStartOffset h = Some start"
    by fastforce
  from Cons.IH [of "i + 1"] Cons.prems obtain ss ws
    where r: "readSheets now view m (i + 1) hs = Inr (ss, ws)" "length ss = length hs"
    by auto
  from r(1) have r': "readSheets now view m (Suc i) hs = Inr (ss, ws)"
    by simp
  show ?case
    by (simp add: st r' r(2) Let_def)
qed

lemma parseMbeFile_after_headers:
  assumes "take 4 view = EXPA_MAGIC_BYTES" and "8 \<le> length view"
    and "readHeaders view (uint32At view 4) 0 8 [] [] = Inr (hs, off, ws1)"
    and "parseChnk view (snd (assignStarts hs off)) = Inr (m, ws2)"
  shows "\<exists>ss ws3. parseMbeFile now view = Inr (\<lparr>sheets = ss\<rparr>, ws1 @ ws2 @ ws3)
           \<and> readSheets now view m 0 (fst (assignStarts hs off)) = Inr (ss, ws3)
           \<and> length ss = length hs"
proof -
  obtain ss ws3 where r: "readSheets now view m 0 (fst (assignStarts hs off)) = Inr (ss, ws3)"
    "length ss = length (fst (assignStarts hs off))"
    using readSheets_total [of "fst (assignStarts hs off)" now view m 0] assignStarts_Some
    by blast
  have len: "length EXPA_MAGIC_BYTES = 4"
    by (simp add: EXPA_MAGIC_BYTES_def)
  show ?thesis
    using assms r
    by (simp add: parseMbeFile_def checkMagic_EXPA getUint32_def len Let_def length_assignStarts)
qed


lemma prefix_take4_cases:
  "length ms = 4 \<Longrightarrow> prefix (take 4 view) ms \<longleftrightarrow> take 4 view = ms \<or> prefix view ms"
proof (cases "4 \<le> length view")
  case True
  assume "length ms = 4"
  with True show ?thesis
    by (auto simp: prefix_def) 
next
  case False
  then show ?thesis by auto
qed

subsection \<open>The search for the pool\<close>

lemma findMagic_iff: "findMagic view ms i = Some mo \<longleftrightarrow> firstMagic view ms i mo"
proof (induction view ms i rule: findMagic.induct)
  case (1 view magicBytes i)
  show ?case
  proof (cases "i + length magicBytes \<le> length view")
    case False
    then have "findMagic view magicBytes i = None"
      by (subst findMagic.simps) simp
    moreover from False have "\<not> firstMagic view magicBytes i mo"
      by (auto simp: firstMagic_def magicAt_def)
    ultimately show ?thesis by simp
  next
    case b: True
    show ?thesis
    proof (cases "take (length magicBytes) (drop i view) = magicBytes")
      case True
      with b have m: "magicAt view magicBytes i"
        by (simp add: magicAt_def)
      from True b have "findMagic view magicBytes i = Some i"
        by (subst findMagic.simps) simp
      moreover have "firstMagic view magicBytes i mo \<longleftrightarrow> mo = i"
        using m by (auto simp: firstMagic_def dest: le_neq_implies_less)
      ultimately show ?thesis by auto
    next
      case False
      then have m: "\<not> magicAt view magicBytes i"
        by (simp add: magicAt_def)
      from False b have "findMagic view magicBytes i = findMagic view magicBytes (i + 1)"
        by (subst findMagic.simps) simp
      moreover have "firstMagic view magicBytes (i + 1) mo \<longleftrightarrow> firstMagic view magicBytes i mo"
      proof
        assume f: "firstMagic view magicBytes (i + 1) mo"
        have "\<not> magicAt view magicBytes k" if "i \<le> k" "k < mo" for k
        proof (cases "k = i")
          case True
          with m show ?thesis by simp
        next
          case False
          with that f show ?thesis by (simp add: firstMagic_def)
        qed
        with f show "firstMagic view magicBytes i mo"
          by (simp add: firstMagic_def)
      next
        assume f: "firstMagic view magicBytes i mo"
        with m have "mo \<noteq> i" by (auto simp: firstMagic_def)
        with f show "firstMagic view magicBytes (i + 1) mo"
          by (auto simp: firstMagic_def)
      qed
      ultimately show ?thesis
        using "1.IH" [OF b False] by simp
    qed
  qed
qed

lemma snd_assignStarts:
  "snd (assignStarts hs s)
     = s + sum_list (map (\<lambda>h. headerExpaAreaSizePerRow h * expaRowCount h) hs)"
  by (induction hs arbitrary: s) (simp_all add: Let_def)

lemma readHeaders_all:
  assumes "headersFrom view off k off'" and "i + k = n"
  shows "\<exists>hs ws'. readHeaders view n i off acc ws = Inr (acc @ hs, off', ws')
           \<and> sum_list (map (\<lambda>h. headerExpaAreaSizePerRow h * expaRowCount h) hs)
               = declaredData view off k"
  using assms
proof (induction arbitrary: i acc ws rule: headersFrom.induct)
  case (none view off)
  then show ?case
    by (simp add: readHeaders.simps [of _ n n])
next
  case (more view off k off')
  from more.prems have i: "i < n" by simp
  from readHeaders_complete [OF i more.hyps(1), of acc ws] obtain h w
    where s: "readHeaders view n i off acc ws
                = readHeaders view n (Suc i) (headerEnd view off) (acc @ [h]) (ws @ w)"
      and h: "headerExpaAreaSizePerRow h = areaAt view off" "expaRowCount h = rowCountAt view off"
    by blast
  from more.IH [of "Suc i" "acc @ [h]" "ws @ w"] more.prems obtain hs ws'
    where r: "readHeaders view n (Suc i) (headerEnd view off) (acc @ [h]) (ws @ w)
                = Inr ((acc @ [h]) @ hs, off', ws')"
      and d: "sum_list (map (\<lambda>h. headerExpaAreaSizePerRow h * expaRowCount h) hs)
               = declaredData view (headerEnd view off) k"
    by auto
  have "readHeaders view n i off acc ws = Inr (acc @ (h # hs), off', ws')"
    unfolding s r by simp
  moreover have "sum_list (map (\<lambda>h. headerExpaAreaSizePerRow h * expaRowCount h) (h # hs))
               = declaredData view off (Suc k)"
    by (simp add: h d)
  ultimately show ?case by blast
qed

lemma parseMbeFile_Inl_iff:
  "parseMbeFile now view = Inl e \<longleftrightarrow>
       (\<not> prefix (take 4 view) EXPA_MAGIC_BYTES \<and> e = InvalidMagic)
     \<or> (prefix (take 4 view) EXPA_MAGIC_BYTES \<and> length view < 8 \<and> e = RangeError)
     \<or> (take 4 view = EXPA_MAGIC_BYTES \<and> 8 \<le> length view
          \<and> (\<exists>k off. k < uint32At view 4 \<and> headersFrom view 8 k off \<and> headerFailure view off e))
     \<or> (take 4 view = EXPA_MAGIC_BYTES \<and> 8 \<le> length view \<and> chnkCountCut view
          \<and> e = RangeError)"
proof -
  have len: "length EXPA_MAGIC_BYTES = 4"
    by (simp add: EXPA_MAGIC_BYTES_def)
  have clen: "length CHNK_MAGIC_BYTES = 4"
    by (simp add: CHNK_MAGIC_BYTES_def)
  note pc = prefix_take4_cases [OF len, of view]
  consider (bad) "\<not> prefix (take 4 view) EXPA_MAGIC_BYTES"
    | (short) "take 4 view \<noteq> EXPA_MAGIC_BYTES" "prefix view EXPA_MAGIC_BYTES"
    | (ok) "take 4 view = EXPA_MAGIC_BYTES"
    using pc by blast
  then show ?thesis
  proof cases
    case bad
    then show ?thesis
      using pc by (auto simp: parseMbeFile_def checkMagic_EXPA)
  next
    case short
    then have "length view < 4"
      by (metis len append_eq_conv_conj not_le_imp_less prefix_def prefix_length_le
          le_antisym take_all_iff)
    with short show ?thesis
      using pc by (auto simp: parseMbeFile_def checkMagic_EXPA)
  next
    case ok
    then have l4: "4 \<le> length view"
      using len by (metis length_take min.cobounded1)
    show ?thesis
    proof (cases "8 \<le> length view")
      case False
      with ok l4 show ?thesis
        using pc by (auto simp: parseMbeFile_def checkMagic_EXPA getUint32_def len)
    next
      case True
      let ?n = "uint32At view 4"
      show ?thesis
      proof (cases "\<exists>off. headersFrom view 8 ?n off")
        case False
        then have nc: "\<not> chnkCountCut view"
          by (auto simp: chnkCountCut_def)
        from False readHeaders_Inr_iff [of 0 ?n view 8 "[]" "[]"]
        obtain e' where e': "readHeaders view ?n 0 8 [] [] = Inl e'"
          by (cases "readHeaders view ?n 0 8 [] []") auto
        then have p: "parseMbeFile now view = Inl e'"
          using ok True by (simp add: parseMbeFile_def checkMagic_EXPA getUint32_def len)
        have "e' = e \<longleftrightarrow> (\<exists>k off. k < ?n \<and> headersFrom view 8 k off \<and> headerFailure view off e)"
          using readHeaders_Inl_iff [of 0 ?n view 8 "[]" "[]" e] e' by auto
        with ok True nc p show ?thesis
          using pc by auto
      next
        case c: True
        then obtain off where off: "headersFrom view 8 ?n off" ..
        from readHeaders_all [OF off, of 0 ?n "[]" "[]"] obtain hs ws1
          where h: "readHeaders view ?n 0 8 [] [] = Inr (hs, off, ws1)"
            and d: "sum_list (map (\<lambda>h. headerExpaAreaSizePerRow h * expaRowCount h) hs)
                      = declaredData view 8 ?n"
          by auto
        have st: "snd (assignStarts hs off) = off + declaredData view 8 ?n"
          by (simp add: snd_assignStarts d)
        have nf: "\<not> (\<exists>k off. k < ?n \<and> headersFrom view 8 k off \<and> headerFailure view off e)"
          using readHeaders_Inl_iff [of 0 ?n view 8 "[]" "[]" e] h by simp
        have cut: "chnkCountCut view \<longleftrightarrow>
            (\<exists>mo. findMagic view CHNK_MAGIC_BYTES (off + declaredData view 8 ?n) = Some mo
                 \<and> length view < mo + 8)"
        proof
          assume "chnkCountCut view"
          then obtain off2 mo where o2: "headersFrom view 8 ?n off2"
            and f: "firstMagic view CHNK_MAGIC_BYTES (off2 + declaredData view 8 ?n) mo"
              "length view < mo + 8"
            by (auto simp: chnkCountCut_def)
          from readHeaders_all [OF o2, of 0 ?n "[]" "[]"] h have "off2 = off"
            by auto
          with f show "\<exists>mo. findMagic view CHNK_MAGIC_BYTES (off + declaredData view 8 ?n) = Some mo
                 \<and> length view < mo + 8"
            by (auto simp: findMagic_iff)
        next
          assume "\<exists>mo. findMagic view CHNK_MAGIC_BYTES (off + declaredData view 8 ?n) = Some mo
                 \<and> length view < mo + 8"
          with off show "chnkCountCut view"
            by (auto simp: chnkCountCut_def findMagic_iff)
        qed
        show ?thesis
        proof (cases "parseChnk view (snd (assignStarts hs off))")
          case (Inl e')
          then have p: "parseMbeFile now view = Inl e'"
            using ok True h by (simp add: parseMbeFile_def checkMagic_EXPA getUint32_def len Let_def)
          from Inl have "e' = RangeError" "chnkCountCut view"
            unfolding cut st by (auto simp: parseChnk_Inl)
          with ok True nf p show ?thesis
            using pc by auto
        next
          case (Inr q)
          obtain m ws2 where q: "q = (m, ws2)" by (cases q)
          from Inr have nc: "\<not> chnkCountCut view"
            unfolding cut st [symmetric] using parseChnk_Inl [of view "snd (assignStarts hs off)" RangeError]
            by auto
          from parseMbeFile_after_headers [OF ok True h Inr [unfolded q], of now]
          show ?thesis
            using ok True nf nc pc by auto
        qed
      qed
    qed
  qed
qed

lemma parseMbeFile_Inr_iff:
  "(\<exists>G ws. parseMbeFile now view = Inr (G, ws)) \<longleftrightarrow>
     take 4 view = EXPA_MAGIC_BYTES \<and> 8 \<le> length view
     \<and> (\<exists>off. headersFrom view 8 (uint32At view 4) off) \<and> \<not> chnkCountCut view"
proof -
  have len: "length EXPA_MAGIC_BYTES = 4"
    by (simp add: EXPA_MAGIC_BYTES_def)
  have r: "(\<exists>G ws. parseMbeFile now view = Inr (G, ws)) \<longleftrightarrow> (\<forall>e. parseMbeFile now view \<noteq> Inl e)"
    by (cases "parseMbeFile now view") auto
  have t: "take 4 view = EXPA_MAGIC_BYTES"
    if "prefix (take 4 view) EXPA_MAGIC_BYTES" "8 \<le> length view"
  proof -
    from that(1) obtain zs where z: "EXPA_MAGIC_BYTES = take 4 view @ zs"
      by (auto simp: prefix_def)
    from that(2) have "length (take 4 view) = 4" by simp
    with arg_cong [OF z, of length] len have "zs = []" by simp
    with z show ?thesis by simp
  qed
  show ?thesis
  proof
    assume "\<exists>G ws. parseMbeFile now view = Inr (G, ws)"
    then have n: "\<And>e. parseMbeFile now view \<noteq> Inl e"
      by auto
    from n [of InvalidMagic] have p: "prefix (take 4 view) EXPA_MAGIC_BYTES"
      unfolding parseMbeFile_Inl_iff by blast
    from n [of RangeError] p have l: "8 \<le> length view"
      unfolding parseMbeFile_Inl_iff by auto
    from t [OF p l] have ok: "take 4 view = EXPA_MAGIC_BYTES" .
    from n [of RangeError] ok l have nc: "\<not> chnkCountCut view"
      unfolding parseMbeFile_Inl_iff by blast
    have "\<not> (\<exists>e k off. 0 + k < uint32At view 4 \<and> headersFrom view 8 k off \<and> headerFailure view off e)"
    proof
      assume "\<exists>e k off. 0 + k < uint32At view 4 \<and> headersFrom view 8 k off \<and> headerFailure view off e"
      then obtain e k off where "k < uint32At view 4" "headersFrom view 8 k off" "headerFailure view off e"
        by auto
      with ok l have "parseMbeFile now view = Inl e"
        unfolding parseMbeFile_Inl_iff by blast
      with n show False by blast
    qed
    with headers_total [of 0 "uint32At view 4" view 8]
    have "\<exists>off. headersFrom view 8 (uint32At view 4) off"
      by auto
    with ok l nc show "take 4 view = EXPA_MAGIC_BYTES \<and> 8 \<le> length view
     \<and> (\<exists>off. headersFrom view 8 (uint32At view 4) off) \<and> \<not> chnkCountCut view"
      by blast
  next
    assume a: "take 4 view = EXPA_MAGIC_BYTES \<and> 8 \<le> length view
     \<and> (\<exists>off. headersFrom view 8 (uint32At view 4) off) \<and> \<not> chnkCountCut view"
    then obtain off where off: "headersFrom view 8 (uint32At view 4) off" by blast
    from readHeaders_all [OF off, of 0 "uint32At view 4" "[]" "[]"] obtain hs ws1
      where h: "readHeaders view (uint32At view 4) 0 8 [] [] = Inr (hs, off, ws1)"
      by auto
    have nf: "\<not> (\<exists>k off. k < uint32At view 4 \<and> headersFrom view 8 k off \<and> headerFailure view off e)" for e
      using readHeaders_Inl_iff [of 0 "uint32At view 4" view 8 "[]" "[]" e] h by simp
    have "parseMbeFile now view \<noteq> Inl e" for e
      unfolding parseMbeFile_Inl_iff using a nf [of e] by auto
    then show "\<exists>G ws. parseMbeFile now view = Inr (G, ws)"
      unfolding r by blast
  qed
qed


lemma headersFrom_unique:
  "headersFrom view off k a \<Longrightarrow> headersFrom view off k b \<Longrightarrow> a = b"
proof (induction arbitrary: b rule: headersFrom.induct)
  case (none view off)
  then show ?case by (auto elim: headersFrom.cases)
next
  case (more view off k off')
  from more.prems have "headersFrom view (headerEnd view off) k b"
    by (auto elim: headersFrom.cases)
  then show ?case by (rule more.IH)
qed

lemma firstMagic_unique:
  "firstMagic view ms start a \<Longrightarrow> firstMagic view ms start b \<Longrightarrow> a = b"
  unfolding firstMagic_def by (meson linorder_neqE_nat)

text \<open>
  Claim C3, as amended. The parser throws exactly in four cases: one of the leading bytes
  differs from \<^verbatim>\<open>"EXPA"\<close> (InvalidMagic); the buffer ends within the magic or the sheet
  count (RangeError); after \<open>k\<close> complete headers, fewer than the announced number, the next
  header is cut by the end of the buffer at a field that precedes every invalid tag
  (RangeError), or its first invalid tag, a value \<open>v\<close> other than 2, 7, 8 in column \<open>j\<close>, lies
  within the buffer (UnknownColumnType with \<open>v\<close>, the name of the sheet and \<open>j\<close>); all headers
  are complete and the first \<^verbatim>\<open>"CHNK"\<close> behind the declared data is followed by fewer than
  four bytes (RangeError). It returns a file exactly when the leading bytes are \<^verbatim>\<open>"EXPA"\<close>,
  the sheet count fits, all announced headers are complete with tags 2, 7, 8 only, and the
  entry count of the pool, if there is a pool, fits.
\<close>

theorem parse_error_cases:
  "(parseMbeFile now view = Inl e \<longleftrightarrow>
       (\<not> prefix (take 4 view) EXPA_MAGIC_BYTES \<and> e = InvalidMagic)
     \<or> (prefix (take 4 view) EXPA_MAGIC_BYTES \<and> length view < 8 \<and> e = RangeError)
     \<or> (take 4 view = EXPA_MAGIC_BYTES \<and> 8 \<le> length view
          \<and> (\<exists>k off. k < uint32At view 4 \<and> headersFrom view 8 k off \<and> headerFailure view off e))
     \<or> (take 4 view = EXPA_MAGIC_BYTES \<and> 8 \<le> length view \<and> chnkCountCut view
          \<and> e = RangeError))
   \<and> ((\<exists>G ws. parseMbeFile now view = Inr (G, ws)) \<longleftrightarrow>
        take 4 view = EXPA_MAGIC_BYTES \<and> 8 \<le> length view
        \<and> (\<exists>off. headersFrom view 8 (uint32At view 4) off) \<and> \<not> chnkCountCut view)"
  using parseMbeFile_Inl_iff [of now view e] parseMbeFile_Inr_iff [of now view]
  by (rule conjI)

subsection \<open>Concrete buffers\<close>

definition exampleNow :: "nat \<Rightarrow> nat \<Rightarrow> nat" where
  "exampleNow i r = 17"

text \<open>One sheet with the empty name and one column whose type tag is 5.\<close>

definition badTagBytes :: "byte list" where
  "badTagBytes = [0x45, 0x58, 0x50, 0x41, 1, 0, 0, 0, 0, 0, 0, 0, 1, 0, 0, 0, 5, 0, 0, 0]"

lemmas parser_defs =
  parseChnk_def readString_def getUint32_def getUint8_def uint32At_def int32At_def
  findMagic.simps readColumns.simps readHeaders.simps parseChnkEntries.simps
  textDecoder_decode_def rowId_def EXPA_MAGIC_BYTES_def CHNK_MAGIC_BYTES_def Let_def

lemmas layout_defs =
  headerComplete_def headerBadTag_def countsFit_def tagValid_def headerEnd_def tagOffset_def
  columnCountAt_def nameLenAt_def areaAt_def rowCountAt_def uint32At_def

theorem parse_error_counterexample:
  "take 4 EXPA_MAGIC_BYTES = EXPA_MAGIC_BYTES
   \<and> parseMbeFile exampleNow EXPA_MAGIC_BYTES = Inl RangeError"
  by (simp add: parseMbeFile_def checkMagic_EXPA getUint32_def) (simp add: EXPA_MAGIC_BYTES_def)

theorem parse_error_cases_witness:
  "headersFrom badTagBytes 8 0 8 \<and> headerBadTag badTagBytes 8 5 0
   \<and> parseMbeFile exampleNow badTagBytes = Inl (UnknownColumnType 5 [] 0)
   \<and> headersFrom exampleBytes 8 1 36 \<and> \<not> chnkCountCut exampleBytes
   \<and> (\<exists>G ws. parseMbeFile exampleNow exampleBytes = Inr (G, ws))"
proof -
  have t: "take 4 badTagBytes = EXPA_MAGIC_BYTES" "8 \<le> length badTagBytes"
    "uint32At badTagBytes 4 = 1"
    by (simp_all add: badTagBytes_def EXPA_MAGIC_BYTES_def uint32At_def)
  have h: "headersFrom badTagBytes 8 0 8"
    by (rule headersFrom.none)
  have b: "headerBadTag badTagBytes 8 5 0"
    by (simp add: badTagBytes_def layout_defs)
  have nm: "fst (readString badTagBytes (8 + 4) (nameLenAt badTagBytes 8)) = []"
    by (simp add: badTagBytes_def nameLenAt_def uint32At_def readString_def)
  have f: "headerFailure badTagBytes 8 (UnknownColumnType 5 [] 0)"
    unfolding headerFailure_def using b nm by auto
  have 1: "parseMbeFile exampleNow badTagBytes = Inl (UnknownColumnType 5 [] 0)"
    using parse_error_cases [of exampleNow badTagBytes "UnknownColumnType 5 [] 0"] t h f
    by auto
  have t': "take 4 exampleBytes = EXPA_MAGIC_BYTES" "8 \<le> length exampleBytes"
    "uint32At exampleBytes 4 = 1" "length exampleBytes = 68"
    by (simp_all add: exampleBytes_def EXPA_MAGIC_BYTES_def uint32At_def)
  have nl: "nameLenAt exampleBytes 8 = 4"
    by (simp add: exampleBytes_def nameLenAt_def uint32At_def)
  have cc: "columnCountAt exampleBytes 8 = 2"
    unfolding columnCountAt_def nl by (simp add: exampleBytes_def uint32At_def)
  have tv: "tagValid exampleBytes 8 j" if "j < 2" for j
  proof -
    from that have "j = 0 \<or> j = 1" by arith
    then show ?thesis
      unfolding tagValid_def tagOffset_def nl
      by (auto simp: exampleBytes_def uint32At_def)
  qed
  have e: "headerEnd exampleBytes 8 = 36"
    unfolding headerEnd_def tagOffset_def nl cc by simp
  have d: "areaAt exampleBytes 8 = 12" "rowCountAt exampleBytes 8 = 1"
    unfolding areaAt_def rowCountAt_def tagOffset_def nl cc
    by (simp_all add: exampleBytes_def uint32At_def)
  have c: "headerComplete exampleBytes 8"
    unfolding headerComplete_def countsFit_def nl cc e using tv t'(4) by simp
  have h': "headersFrom exampleBytes 8 1 36"
    using headersFrom.more [OF c headersFrom.none] by (simp add: e)
  have m: "firstMagic exampleBytes CHNK_MAGIC_BYTES 48 48"
    by (simp add: firstMagic_def magicAt_def exampleBytes_def CHNK_MAGIC_BYTES_def)
  have n: "\<not> chnkCountCut exampleBytes"
  proof
    assume "chnkCountCut exampleBytes"
    then obtain off mo where o: "headersFrom exampleBytes 8 1 off"
      and f: "firstMagic exampleBytes CHNK_MAGIC_BYTES (off + declaredData exampleBytes 8 1) mo"
      and l: "length exampleBytes < mo + 8"
      by (auto simp: chnkCountCut_def t'(3))
    from headersFrom_unique [OF o h'] have "off = 36" .
    moreover have "declaredData exampleBytes 8 (Suc 0) = 12"
      using d by simp
    ultimately have "firstMagic exampleBytes CHNK_MAGIC_BYTES 48 mo"
      using f by simp
    from firstMagic_unique [OF this m] l t'(4) show False by simp
  qed
  have 2: "\<exists>G ws. parseMbeFile exampleNow exampleBytes = Inr (G, ws)"
    using parse_error_cases [of exampleNow exampleBytes] t' h' n by auto
  from h b 1 h' n 2 show ?thesis by blast
qed


subsection \<open>The file that a buffer declares\<close>

text \<open>
  The header that the layout of section 6.1 places at offset \<open>off\<close>, and the list of the
  \<open>k\<close> headers that lie back to back from \<open>off\<close>.
\<close>

definition columnOfTag :: "nat \<Rightarrow> MbeColumn" where
  "columnOfTag v =
     (if v = 2 then \<lparr>type = INT', typeName = TN_int\<rparr>
      else if v = 7 then \<lparr>type = STR', typeName = TN_str\<rparr>
      else \<lparr>type = STRID', typeName = TN_strID\<rparr>)"

definition sheetHeaderAt :: "byte list \<Rightarrow> nat \<Rightarrow> SheetHeaderData" where
  "sheetHeaderAt view off =
     \<lparr>headerName = fst (readString view (off + 4) (nameLenAt view off)),
      headerColumns = map (\<lambda>j. columnOfTag (uint32At view (tagOffset view off j)))
                        [0..<columnCountAt view off],
      headerExpaAreaSizePerRow = areaAt view off,
      expaRowCount = rowCountAt view off,
      sheetExpaDataStartOffset = None\<rparr>"

fun headersList :: "byte list \<Rightarrow> nat \<Rightarrow> nat \<Rightarrow> SheetHeaderData list" where
  "headersList view off 0 = []"
| "headersList view off (Suc k) = sheetHeaderAt view off # headersList view (headerEnd view off) k"

text \<open>
  A pool entry at offset \<open>off\<close> lies completely within the buffer. The text that \<open>k\<close> pool
  entries from \<open>off\<close> hold for the placeholder at offset \<open>target\<close>: that of the last entry
  with this target among the entries that precede the first entry cut by the end of the
  buffer. A cut entry, and whatever is announced behind it, holds no text.
\<close>

definition entryComplete :: "byte list \<Rightarrow> nat \<Rightarrow> bool" where
  "entryComplete view off =
     (off + 8 \<le> length view \<and> off + 8 + uint32At view (off + 4) \<le> length view)"

fun poolLookup :: "byte list \<Rightarrow> nat \<Rightarrow> nat \<Rightarrow> nat \<Rightarrow> jsstring option" where
  "poolLookup view off 0 target = None"
| "poolLookup view off (Suc k) target =
     (if entryComplete view off then
        (case poolLookup view (off + 8 + uint32At view (off + 4)) k target of
           Some text \<Rightarrow> Some text
         | None \<Rightarrow>
             if uint32At view off = target
             then Some (fst (readString view (off + 8) (uint32At view (off + 4))))
             else None)
      else None)"

text \<open>The pool is sought from \<open>start\<close>, the end of the declared data; a placeholder for
  which the pool holds no text stands for the empty string.\<close>

definition poolText :: "byte list \<Rightarrow> nat \<Rightarrow> nat \<Rightarrow> jsstring" where
  "poolText view start target =
     (case findMagic view CHNK_MAGIC_BYTES start of
        None \<Rightarrow> []
      | Some mo \<Rightarrow>
          (case poolLookup view (mo + 8) (uint32At view (mo + 4)) target of
             None \<Rightarrow> []
           | Some text \<Rightarrow> text))"

text \<open>
  \<open>entriesFrom view off k off'\<close>: \<open>k\<close> complete pool entries lie back to back from \<open>off\<close>
  to \<open>off'\<close>. The warning for entry number \<open>i\<close> of \<open>n\<close>, counted from 1, when it is cut at
  offset \<open>off\<close>: one warning for a cut header, another for a cut body. All warnings of a
  parse are as they should be for the pool sought from \<open>start\<close> when the first cut entry
  among the announced ones has its warning.
\<close>

inductive entriesFrom :: "byte list \<Rightarrow> nat \<Rightarrow> nat \<Rightarrow> nat \<Rightarrow> bool" where
  no_entry: "entriesFrom view off 0 off"
| entry: "entryComplete view off \<Longrightarrow> entriesFrom view (off + 8 + uint32At view (off + 4)) k off'
          \<Longrightarrow> entriesFrom view off (Suc k) off'"

definition entryWarning :: "byte list \<Rightarrow> nat \<Rightarrow> nat \<Rightarrow> nat \<Rightarrow> parseWarning" where
  "entryWarning view off i n =
     (if length view < off + 8 then ChnkEntryHeaderTruncated i n
      else ChnkEntryTextBeyondEOF i n (uint32At view off) (uint32At view (off + 4)) (off + 8)
             (length view))"

definition cutEntryWarned :: "byte list \<Rightarrow> nat \<Rightarrow> parseWarning list \<Rightarrow> bool" where
  "cutEntryWarned view start ws =
     (\<forall>mo k off. firstMagic view CHNK_MAGIC_BYTES start mo \<and> k < uint32At view (mo + 4)
        \<and> entriesFrom view (mo + 8) k off \<and> \<not> entryComplete view off
        \<longrightarrow> entryWarning view off (k + 1) (uint32At view (mo + 4)) \<in> set ws)"

text \<open>The cell of a column at offset \<open>off\<close>: an INT cell that does not fit is 0.\<close>

definition expectedCell :: "byte list \<Rightarrow> nat \<Rightarrow> MbeColumn \<Rightarrow> nat \<Rightarrow> cell" where
  "expectedCell view poolStart column off =
     (if type column = INT' then
        (if off + 4 \<le> length view then Num (int32At view off) else Num 0)
      else Str (poolText view poolStart off))"

text \<open>
  \<open>sheetAsDeclared view off0 s sheet\<close>: \<open>sheet\<close> is what header \<open>s\<close> declares, for the headers
  that end at \<open>off0\<close>. Its data block starts behind the blocks of the sheets before it, row
  \<open>r\<close> at the stride expaAreaSizePerRow, and the cell of column \<open>c\<close> behind the cells of the
  columns before it.
\<close>

definition sheetAsDeclared :: "byte list \<Rightarrow> nat \<Rightarrow> nat \<Rightarrow> MbeSheet \<Rightarrow> bool" where
  "sheetAsDeclared view off0 s sheet =
     (let h = headersList view 8 (uint32At view 4) ! s;
          start = off0 + declaredData view 8 s;
          poolStart = off0 + declaredData view 8 (uint32At view 4)
      in name sheet = headerName h \<and> columns sheet = headerColumns h
         \<and> parsedExpaAreaSizePerRow sheet = headerExpaAreaSizePerRow h
         \<and> length (rows sheet) = expaRowCount h
         \<and> (\<forall>r<expaRowCount h.
               length (cells (rows sheet ! r)) = length (headerColumns h)
               \<and> (\<forall>c<length (headerColumns h).
                     cells (rows sheet ! r) ! c =
                       expectedCell view poolStart (headerColumns h ! c)
                         (start + r * headerExpaAreaSizePerRow h
                            + rowWidth (take c (headerColumns h))))))"

subsection \<open>The headers as read\<close>

lemma readColumns_decoded_from:
  assumes "j \<le> n"
    and "\<And>j'. j \<le> j' \<Longrightarrow> j' < n \<Longrightarrow>
           base + 4 * j' + 4 \<le> length view \<and> uint32At view (base + 4 * j') \<in> {2, 7, 8}"
  shows "readColumns view nm n j (base + 4 * j) cols
           = Inr (cols @ map (\<lambda>j. columnOfTag (uint32At view (base + 4 * j))) [j..<n], base + 4 * n)"
  using assms
proof (induction "n - j" arbitrary: j cols)
  case 0
  then have "j = n" by simp
  then show ?case
    by (simp add: readColumns.simps [of _ _ n n])
next
  case (Suc d)
  then have j: "j < n" by simp
  from Suc.prems(2) [of j] j have v: "base + 4 * j + 4 \<le> length view"
    "uint32At view (base + 4 * j) \<in> {2, 7, 8}"
    by simp_all
  have g: "getUint32 view (base + 4 * j) = Inr (uint32At view (base + 4 * j))"
    using v(1) by (simp add: getUint32_def)
  have o: "base + 4 * j + 4 = base + 4 * Suc j"
    by simp
  have s: "readColumns view nm n j (base + 4 * j) cols
             = readColumns view nm n (Suc j) (base + 4 * Suc j)
                 (cols @ [columnOfTag (uint32At view (base + 4 * j))])"
    using v(2) unfolding o [symmetric]
    by (subst readColumns.simps) (auto simp: j g columnOfTag_def)
  have r: "readColumns view nm n (Suc j) (base + 4 * Suc j)
             (cols @ [columnOfTag (uint32At view (base + 4 * j))])
           = Inr ((cols @ [columnOfTag (uint32At view (base + 4 * j))])
                    @ map (\<lambda>j. columnOfTag (uint32At view (base + 4 * j))) [Suc j..<n],
                  base + 4 * n)"
  proof (rule Suc.hyps(1))
    show "d = n - Suc j" using Suc.hyps(2) by simp
    show "Suc j \<le> n" using j by simp
    show "base + 4 * j' + 4 \<le> length view \<and> uint32At view (base + 4 * j') \<in> {2, 7, 8}"
      if "Suc j \<le> j'" "j' < n" for j'
      using Suc.prems(2) [of j'] that by simp
  qed
  show ?case
    unfolding s r using j by (simp add: upt_conv_Cons)
qed

lemma readHeaders_decoded_step:
  assumes "i < n" and "headerComplete view off"
  shows "\<exists>w. readHeaders view n i off acc ws
           = readHeaders view n (Suc i) (headerEnd view off) (acc @ [sheetHeaderAt view off]) (ws @ w)"
proof -
  from assms(2) have c: "countsFit view off"
    and t: "\<And>j. j < columnCountAt view off \<Longrightarrow> tagValid view off j"
    and e: "headerEnd view off \<le> length view"
    by (simp_all add: headerComplete_def)
  let ?nm = "fst (readString view (off + 4) (nameLenAt view off))"
  let ?off3 = "tagOffset view off 0 + 4 * columnCountAt view off"
  let ?cols = "map (\<lambda>j. columnOfTag (uint32At view (tagOffset view off j))) [0..<columnCountAt view off]"
  have "readColumns view ?nm (columnCountAt view off) 0 (tagOffset view off 0 + 4 * 0) []
      = Inr ([] @ map (\<lambda>j. columnOfTag (uint32At view (tagOffset view off 0 + 4 * j)))
                    [0..<columnCountAt view off], ?off3)"
    by (rule readColumns_decoded_from) (use t in \<open>simp_all add: tagValid_eq\<close>)
  then have r: "readColumns view ?nm (columnCountAt view off) 0 (tagOffset view off 0) []
      = Inr (?cols, ?off3)"
    by (simp add: tagOffset_eq [symmetric])
  have he: "headerEnd view off = ?off3 + 8"
    unfolding headerEnd_def tagOffset_eq [of view off "columnCountAt view off"] ..
  have ar: "areaAt view off = uint32At view ?off3" "rowCountAt view off = uint32At view (?off3 + 4)"
    unfolding areaAt_def rowCountAt_def tagOffset_eq [of view off "columnCountAt view off"]
    by (rule refl)+
  have g: "getUint32 view ?off3 = Inr (uint32At view ?off3)"
    "getUint32 view (?off3 + 4) = Inr (uint32At view (?off3 + 4))"
    using e unfolding he by (simp_all add: getUint32_def)
  have "readHeaders view n i off acc ws
           = readHeaders view n (Suc i) (headerEnd view off) (acc @ [sheetHeaderAt view off])
               (ws @ snd (readString view (off + 4) (nameLenAt view off)))"
    unfolding readHeaders_counts [OF assms(1) c] r he sheetHeaderAt_def ar
    by (simp only: sum.case prod.case g Suc_eq_plus1)
  then show ?thesis by blast
qed

lemma readHeaders_decoded:
  assumes "headersFrom view off k off'" and "i + k = n"
  shows "\<exists>ws'. readHeaders view n i off acc ws = Inr (acc @ headersList view off k, off', ws')"
  using assms
proof (induction arbitrary: i acc ws rule: headersFrom.induct)
  case (none view off)
  then show ?case
    by (simp add: readHeaders.simps [of _ n n])
next
  case (more view off k off')
  from more.prems have i: "i < n" by simp
  from readHeaders_decoded_step [OF i more.hyps(1), of acc ws] obtain w
    where s: "readHeaders view n i off acc ws
                = readHeaders view n (Suc i) (headerEnd view off) (acc @ [sheetHeaderAt view off]) (ws @ w)"
    by blast
  from more.IH [of "Suc i" "acc @ [sheetHeaderAt view off]" "ws @ w"] more.prems
  show ?case unfolding s by simp
qed

lemma length_headersList [simp]: "length (headersList view off k) = k"
  by (induction k arbitrary: off) simp_all

lemma declaredData_headersList:
  "sum_list (map (\<lambda>h. headerExpaAreaSizePerRow h * expaRowCount h) (take s (headersList view off k)))
     = declaredData view off (min s k)"
proof (induction k arbitrary: off s)
  case 0
  then show ?case by simp
next
  case (Suc k)
  show ?case
  proof (cases s)
    case 0
    then show ?thesis by simp
  next
    case (Suc s')
    then show ?thesis
      using Suc.IH [of s' "headerEnd view off"] by (simp add: sheetHeaderAt_def)
  qed
qed

lemma assignStarts_nth:
  "i < length hs \<Longrightarrow>
   fst (assignStarts hs s) ! i
     = (hs ! i)\<lparr>sheetExpaDataStartOffset :=
          Some (s + sum_list (map (\<lambda>h. headerExpaAreaSizePerRow h * expaRowCount h) (take i hs)))\<rparr>"
proof (induction hs arbitrary: s i)
  case Nil
  then show ?case by simp
next
  case (Cons h hs)
  show ?case
  proof (cases i)
    case 0
    then show ?thesis by (simp add: Let_def)
  next
    case (Suc i')
    with Cons.prems have "i' < length hs" by simp
    from Cons.IH [OF this] Suc show ?thesis
      by (simp add: Let_def add.assoc)
  qed
qed

subsection \<open>The pool as read\<close>

lemma poolLookup_at_end: "poolLookup view (length view) k target = None"
  by (cases k) (simp_all add: entryComplete_def)

lemma parseChnkEntries_lookup:
  "map_option fst (fst (parseChnkEntries view n i off m ws) target)
     = (case poolLookup view off (n - i) target of
          Some text \<Rightarrow> Some text
        | None \<Rightarrow> map_option fst (m target))"
proof (induction view n i off m ws rule: parseChnkEntries.induct)
  case (1 view numChnkEntries i chnkOffset m ws)
  show ?case
  proof (cases "i < numChnkEntries")
    case False
    then show ?thesis
      by (subst parseChnkEntries.simps) simp
  next
    case i: True
    then have d: "numChnkEntries - i = Suc (numChnkEntries - (i + 1))"
      by simp
    show ?thesis
    proof (cases "chnkOffset + 8 > length view")
      case True
      with i show ?thesis
        unfolding d by (subst parseChnkEntries.simps) (simp add: entryComplete_def)
    next
      case h: False
      let ?L = "uint32At view (chnkOffset + 4)"
      show ?thesis
      proof (cases "chnkOffset + 8 + ?L > length view")
        case True
        then have c: "(if chnkOffset + (8 + ?L) > length view then length view
                       else chnkOffset + (8 + ?L)) = length view"
          by simp
        from True have n: "\<not> entryComplete view chnkOffset"
          by (simp add: entryComplete_def)
        have "parseChnkEntries view numChnkEntries i chnkOffset m ws =
                parseChnkEntries view numChnkEntries (i + 1) (length view) m
                  (ws @ [ChnkEntryTextBeyondEOF (i + 1) numChnkEntries (uint32At view chnkOffset) ?L
                           (chnkOffset + 8) (length view)])"
          using i h True by (subst parseChnkEntries.simps) (simp add: Let_def)
        then show ?thesis
          unfolding d using "1.IH"(1) [OF i h refl refl refl _, unfolded c] True n
          by (simp add: poolLookup_at_end)
      next
        case False
        then have e: "entryComplete view chnkOffset"
          using h by (simp add: entryComplete_def)
        let ?rs = "readString view (chnkOffset + 8) ?L"
        have s: "parseChnkEntries view numChnkEntries i chnkOffset m ws =
                parseChnkEntries view numChnkEntries (i + 1) (chnkOffset + (8 + ?L))
                  (m(uint32At view chnkOffset \<mapsto> (fst ?rs, ?L))) (ws @ snd ?rs)"
          using i h False by (subst parseChnkEntries.simps) (simp add: Let_def)
        have o: "chnkOffset + 8 + ?L = chnkOffset + (8 + ?L)"
          by simp
        have ih: "map_option fst
                    (fst (parseChnkEntries view numChnkEntries (i + 1) (chnkOffset + (8 + ?L))
                            (m(uint32At view chnkOffset \<mapsto> (fst ?rs, ?L))) (ws @ snd ?rs)) target)
                  = (case poolLookup view (chnkOffset + (8 + ?L)) (numChnkEntries - (i + 1)) target of
                       Some text \<Rightarrow> Some text
                     | None \<Rightarrow> map_option fst ((m(uint32At view chnkOffset \<mapsto> (fst ?rs, ?L))) target))"
          by (rule "1.IH"(2) [OF i h refl refl refl False refl])
        show ?thesis
          unfolding d s ih poolLookup.simps o
          using e by (simp split: option.splits)
      qed
    qed
  qed
qed


lemma parseChnk_poolText:
  assumes "parseChnk view start = Inr (m, ws)"
  shows "(case m target of None \<Rightarrow> [] | Some e \<Rightarrow> fst e) = poolText view start target"
proof (cases "findMagic view CHNK_MAGIC_BYTES start")
  case None
  with assms have "m = Map.empty"
    by (simp add: parseChnk_def)
  with None show ?thesis
    by (simp add: poolText_def)
next
  case (Some mo)
  have clen: "length CHNK_MAGIC_BYTES = 4"
    by (simp add: CHNK_MAGIC_BYTES_def)
  from assms Some have m: "m = fst (parseChnkEntries view (uint32At view (mo + 4)) 0 (mo + 8) Map.empty [])"
    by (auto simp: parseChnk_def clen getUint32_def add.commute split: if_splits)
  have "map_option fst (m target)
          = (case poolLookup view (mo + 8) (uint32At view (mo + 4)) target of
               Some text \<Rightarrow> Some text | None \<Rightarrow> None)"
    unfolding m using parseChnkEntries_lookup [of view "uint32At view (mo + 4)" 0 "mo + 8" Map.empty "[]" target]
    by (simp split: option.splits)
  then show ?thesis
    unfolding poolText_def Some by (cases "m target") (auto split: option.splits)
qed

lemma parseChnkEntries_warnings_grow:
  "set ws \<subseteq> set (snd (parseChnkEntries view n i off m ws))"
proof (induction view n i off m ws rule: parseChnkEntries.induct)
  case (1 view numChnkEntries i chnkOffset m ws)
  show ?case
  proof (cases "i < numChnkEntries")
    case False
    then show ?thesis
      by (subst parseChnkEntries.simps) simp
  next
    case i: True
    show ?thesis
    proof (cases "chnkOffset + 8 > length view")
      case True
      with i show ?thesis
        by (subst parseChnkEntries.simps) auto
    next
      case h: False
      let ?L = "uint32At view (chnkOffset + 4)"
      show ?thesis
      proof (cases "chnkOffset + 8 + ?L > length view")
        case True
        let ?w = "ChnkEntryTextBeyondEOF (i + 1) numChnkEntries (uint32At view chnkOffset) ?L
                    (chnkOffset + 8) (length view)"
        have s: "parseChnkEntries view numChnkEntries i chnkOffset m ws =
                parseChnkEntries view numChnkEntries (i + 1)
                  (if chnkOffset + (8 + ?L) > length view then length view
                   else chnkOffset + (8 + ?L)) m (ws @ [?w])"
          using i h True by (subst parseChnkEntries.simps) (simp add: Let_def)
        have "set ws \<subseteq> set (ws @ [?w])" by auto
        then show ?thesis
          unfolding s by (rule subset_trans) (rule "1.IH"(1) [OF i h refl refl refl True])
      next
        case False
        let ?rs = "readString view (chnkOffset + 8) ?L"
        have s: "parseChnkEntries view numChnkEntries i chnkOffset m ws =
                parseChnkEntries view numChnkEntries (i + 1) (chnkOffset + (8 + ?L))
                  (m(uint32At view chnkOffset \<mapsto> (fst ?rs, ?L))) (ws @ snd ?rs)"
          using i h False by (subst parseChnkEntries.simps) (simp add: Let_def)
        have "set ws \<subseteq> set (ws @ snd ?rs)" by auto
        then show ?thesis
          unfolding s by (rule subset_trans) (rule "1.IH"(2) [OF i h refl refl refl False refl])
      qed
    qed
  qed
qed

lemma parseChnkEntries_cut_warns:
  assumes "i < n" and "\<not> entryComplete view off"
  shows "entryWarning view off (i + 1) n \<in> set (snd (parseChnkEntries view n i off m ws))"
proof (cases "length view < off + 8")
  case True
  with assms(1) show ?thesis
    by (subst parseChnkEntries.simps) (simp add: entryWarning_def)
next
  case False
  let ?L = "uint32At view (off + 4)"
  let ?w = "ChnkEntryTextBeyondEOF (i + 1) n (uint32At view off) ?L (off + 8) (length view)"
  from False assms(2) have b: "off + 8 + ?L > length view"
    by (simp add: entryComplete_def)
  have s: "parseChnkEntries view n i off m ws =
             parseChnkEntries view n (i + 1)
               (if off + (8 + ?L) > length view then length view else off + (8 + ?L)) m (ws @ [?w])"
    using assms(1) False b by (subst parseChnkEntries.simps) (simp add: Let_def)
  have "set (ws @ [?w]) \<subseteq> set (snd (parseChnkEntries view n (i + 1)
          (if off + (8 + ?L) > length view then length view else off + (8 + ?L)) m (ws @ [?w])))"
    by (rule parseChnkEntries_warnings_grow)
  then have "?w \<in> set (snd (parseChnkEntries view n i off m ws))"
    unfolding s by auto
  moreover have "entryWarning view off (i + 1) n = ?w"
    using False by (simp add: entryWarning_def)
  ultimately show ?thesis by simp
qed

lemma parseChnkEntries_chain_warns:
  assumes "entriesFrom view off k off'" and "i + k < n" and "\<not> entryComplete view off'"
  shows "entryWarning view off' (i + k + 1) n \<in> set (snd (parseChnkEntries view n i off m ws))"
  using assms
proof (induction arbitrary: i m ws rule: entriesFrom.induct)
  case (no_entry view off)
  then show ?case
    using parseChnkEntries_cut_warns [of i n view off m ws] by simp
next
  case (entry view off k off')
  let ?L = "uint32At view (off + 4)"
  let ?rs = "readString view (off + 8) ?L"
  from entry.prems have i: "i < n" by simp
  from entry.hyps(1) have c: "\<not> off + 8 > length view" "\<not> off + 8 + ?L > length view"
    by (simp_all add: entryComplete_def)
  have s: "parseChnkEntries view n i off m ws =
             parseChnkEntries view n (i + 1) (off + 8 + ?L)
               (m(uint32At view off \<mapsto> (fst ?rs, ?L))) (ws @ snd ?rs)"
    using i c by (subst parseChnkEntries.simps) (simp add: Let_def add.assoc)
  have ix: "i + Suc k + 1 = (i + 1) + k + 1"
    by simp
  show ?case
    unfolding s ix by (rule entry.IH) (use entry.prems in simp_all)
qed

lemma parseChnk_cutEntryWarned:
  assumes "parseChnk view start = Inr (m, ws)"
  shows "cutEntryWarned view start ws"
  unfolding cutEntryWarned_def
proof (intro allI impI, elim conjE)
  fix mo k off
  assume f: "firstMagic view CHNK_MAGIC_BYTES start mo" and k: "k < uint32At view (mo + 4)"
    and e: "entriesFrom view (mo + 8) k off" and c: "\<not> entryComplete view off"
  have clen: "length CHNK_MAGIC_BYTES = 4"
    by (simp add: CHNK_MAGIC_BYTES_def)
  from f have fm: "findMagic view CHNK_MAGIC_BYTES start = Some mo"
    by (simp add: findMagic_iff)
  from assms fm
  have "ws = snd (parseChnkEntries view (uint32At view (mo + 4)) 0 (mo + 8) Map.empty [])"
    by (auto simp: parseChnk_def clen getUint32_def add.commute split: if_splits)
  with parseChnkEntries_chain_warns [OF e _ c, of 0 "uint32At view (mo + 4)" Map.empty "[]"] k
  show "entryWarning view off (k + 1) (uint32At view (mo + 4)) \<in> set ws"
    by simp
qed

subsection \<open>The rows as read\<close>

text \<open>The cell that the third pass builds from the map of the second.\<close>

definition cellFromMap :: "byte list \<Rightarrow> chnkMap \<Rightarrow> MbeColumn \<Rightarrow> nat \<Rightarrow> cell" where
  "cellFromMap view m column off =
     (if type column = INT' then
        (if off + 4 \<le> length view then Num (int32At view off) else Num 0)
      else Str (case m off of None \<Rightarrow> [] | Some e \<Rightarrow> fst e))"

lemma length_readCells:
  "length (fst (readCells view m nm r base cols c within)) = length cols"
proof (induction cols arbitrary: c within)
  case Nil
  then show ?case by simp
next
  case (Cons column cols)
  show ?case
  proof (cases "type column = INT'")
    case True
    then show ?thesis
      by (simp add: Let_def Cons.IH)
  next
    case False
    with type_cases [OF False] show ?thesis
      by (auto simp: Let_def Cons.IH split: option.splits)
  qed
qed

lemma rowWidth_Cons: "rowWidth (column # cols) = cellWidth column + rowWidth cols"
  by (simp add: rowWidth_def)

lemma readCells_nth:
  "k < length cols \<Longrightarrow>
   fst (readCells view m nm r base cols c within) ! k
     = cellFromMap view m (cols ! k) (base + within + rowWidth (take k cols))"
proof (induction cols arbitrary: c within k)
  case Nil
  then show ?case by simp
next
  case (Cons column cols)
  show ?case
  proof (cases k)
    case 0
    show ?thesis
    proof (cases "type column = INT'")
      case True
      then show ?thesis
        by (simp add: 0 Let_def cellFromMap_def rowWidth_def)
    next
      case False
      with type_cases [OF False] show ?thesis
        by (auto simp: 0 Let_def cellFromMap_def rowWidth_def split: option.splits)
    qed
  next
    case (Suc k')
    with Cons.prems have k': "k' < length cols" by simp
    show ?thesis
    proof (cases "type column = INT'")
      case True
      then have "fst (readCells view m nm r base (column # cols) c within) ! k
                   = fst (readCells view m nm r base cols (c + 1) (within + 4)) ! k'"
        by (simp add: Suc Let_def)
      also have "\<dots> = cellFromMap view m (cols ! k') (base + (within + 4) + rowWidth (take k' cols))"
        by (rule Cons.IH [OF k'])
      finally show ?thesis
        using True by (simp add: Suc rowWidth_Cons cellWidth_def add.assoc)
    next
      case False
      with type_cases [OF False]
      have "fst (readCells view m nm r base (column # cols) c within) ! k
                   = fst (readCells view m nm r base cols (c + 1) (within + 8)) ! k'"
        by (auto simp: Suc Let_def split: option.splits)
      also have "\<dots> = cellFromMap view m (cols ! k') (base + (within + 8) + rowWidth (take k' cols))"
        by (rule Cons.IH [OF k'])
      finally show ?thesis
        using False by (simp add: Suc rowWidth_Cons cellWidth_def add.assoc)
    qed
  qed
qed

lemma length_readRows: "length (fst (readRows now view m i h start rs)) = length rs"
  by (induction rs) (simp_all add: Let_def)

lemma readRows_nth:
  "k < length rs \<Longrightarrow>
   cells (fst (readRows now view m i h start rs) ! k)
     = fst (readCells view m (headerName h) (rs ! k)
              (start + rs ! k * headerExpaAreaSizePerRow h) (headerColumns h) 0 0)"
proof (induction rs arbitrary: k)
  case Nil
  then show ?case by simp
next
  case (Cons r rs)
  show ?case
  proof (cases k)
    case 0
    then show ?thesis by (simp add: Let_def)
  next
    case (Suc k')
    with Cons.prems have "k' < length rs" by simp
    from Cons.IH [OF this] Suc show ?thesis
      by (simp add: Let_def)
  qed
qed

lemma readSheets_nth:
  assumes "readSheets now view m i hs = Inr (ss, ws)" and "k < length hs"
  shows "name (ss ! k) = headerName (hs ! k) \<and> columns (ss ! k) = headerColumns (hs ! k)
         \<and> parsedExpaAreaSizePerRow (ss ! k) = headerExpaAreaSizePerRow (hs ! k)
         \<and> (\<exists>start. sheetExpaDataStartOffset (hs ! k) = Some start
              \<and> rows (ss ! k) = fst (readRows now view m (i + k) (hs ! k) start
                                       [0..<expaRowCount (hs ! k)]))"
  using assms
proof (induction hs arbitrary: i ss ws k)
  case Nil
  then show ?case by simp
next
  case (Cons h hs)
  from Cons.prems(1) obtain start where st: "sheetExpaDataStartOffset h = Some start"
    by (cases "sheetExpaDataStartOffset h") simp_all
  from Cons.prems(1) st obtain ss' ws' where r: "readSheets now view m (i + 1) hs = Inr (ss', ws')"
    by (cases "readSheets now view m (i + 1) hs") (auto simp: Let_def)
  from Cons.prems(1) st r
  have ss: "ss = \<lparr>name = headerName h, columns = headerColumns h,
                  rows = fst (readRows now view m i h start [0..<expaRowCount h]),
                  parsedExpaAreaSizePerRow = headerExpaAreaSizePerRow h\<rparr> # ss'"
    by (simp add: Let_def)
  show ?case
  proof (cases k)
    case 0
    then show ?thesis by (simp add: ss st)
  next
    case (Suc k')
    with Cons.prems(2) have "k' < length hs" by simp
    from Cons.IH [OF r this] Suc show ?thesis
      by (simp add: ss)
  qed
qed

subsection \<open>The file as read\<close>

lemma parseMbeFile_declared:
  assumes "take 4 view = EXPA_MAGIC_BYTES" and "8 \<le> length view"
    and "headersFrom view 8 (uint32At view 4) off0" and "\<not> chnkCountCut view"
  shows "\<exists>ss ws. parseMbeFile now view = Inr (\<lparr>sheets = ss\<rparr>, ws)
           \<and> length ss = uint32At view 4
           \<and> (\<forall>s<length ss. sheetAsDeclared view off0 s (ss ! s))
           \<and> cutEntryWarned view (off0 + declaredData view 8 (uint32At view 4)) ws"
proof -
  let ?n = "uint32At view 4"
  let ?hs = "headersList view 8 ?n"
  let ?area = "\<lambda>h. headerExpaAreaSizePerRow h * expaRowCount h"
  let ?poolStart = "off0 + declaredData view 8 ?n"
  from readHeaders_decoded [OF assms(3), of 0 ?n "[]" "[]"] obtain wsa
    where h: "readHeaders view ?n 0 8 [] [] = Inr (?hs, off0, wsa)"
    by auto
  have dd: "sum_list (map ?area (take s ?hs)) = declaredData view 8 s" if "s \<le> ?n" for s
    using declaredData_headersList [of s view 8 ?n] that by (simp add: min_def)
  have st: "snd (assignStarts ?hs off0) = ?poolStart"
    using dd [of ?n] by (simp add: snd_assignStarts)
  have "\<not> (\<exists>e. parseChnk view ?poolStart = Inl e)"
  proof
    assume "\<exists>e. parseChnk view ?poolStart = Inl e"
    then obtain mo where "findMagic view CHNK_MAGIC_BYTES ?poolStart = Some mo" "length view < mo + 8"
      by (auto simp: parseChnk_Inl)
    with assms(3) have "chnkCountCut view"
      by (auto simp: chnkCountCut_def findMagic_iff)
    with assms(4) show False by simp
  qed
  then obtain m wsb where c: "parseChnk view ?poolStart = Inr (m, wsb)"
    by (cases "parseChnk view ?poolStart") auto
  from parseMbeFile_after_headers [OF assms(1,2) h c [folded st], of now] obtain ss wsc
    where p: "parseMbeFile now view = Inr (\<lparr>sheets = ss\<rparr>, wsa @ wsb @ wsc)"
      and r: "readSheets now view m 0 (fst (assignStarts ?hs off0)) = Inr (ss, wsc)"
      and l: "length ss = ?n"
    by auto
  have "sheetAsDeclared view off0 s (ss ! s)" if s: "s < length ss" for s
  proof -
    let ?h = "?hs ! s"
    let ?start = "off0 + declaredData view 8 s"
    from s l have sn: "s < ?n" by simp
    have a: "fst (assignStarts ?hs off0) ! s = ?h\<lparr>sheetExpaDataStartOffset := Some ?start\<rparr>"
      using assignStarts_nth [of s ?hs off0] sn dd [of s] by simp
    from readSheets_nth [OF r, of s] sn
    have f: "name (ss ! s) = headerName ?h" "columns (ss ! s) = headerColumns ?h"
      "parsedExpaAreaSizePerRow (ss ! s) = headerExpaAreaSizePerRow ?h"
      and rw: "rows (ss ! s) = fst (readRows now view m s (?h\<lparr>sheetExpaDataStartOffset := Some ?start\<rparr>)
                                     ?start [0..<expaRowCount ?h])"
      by (simp_all add: length_assignStarts a)
    have lr: "length (rows (ss ! s)) = expaRowCount ?h"
      unfolding rw by (simp add: length_readRows)
    have cs: "cells (rows (ss ! s) ! r)
                = fst (readCells view m (headerName ?h) r
                         (?start + r * headerExpaAreaSizePerRow ?h) (headerColumns ?h) 0 0)"
      if "r < expaRowCount ?h" for r
      unfolding rw using readRows_nth [of r "[0..<expaRowCount ?h]" now view m s
          "?h\<lparr>sheetExpaDataStartOffset := Some ?start\<rparr>" ?start] that
      by simp
    have e: "cellFromMap view m column off = expectedCell view ?poolStart column off" for column off
      unfolding cellFromMap_def expectedCell_def parseChnk_poolText [OF c] ..
    have "length (cells (rows (ss ! s) ! r)) = length (headerColumns ?h)
          \<and> (\<forall>c<length (headerColumns ?h).
                cells (rows (ss ! s) ! r) ! c =
                  expectedCell view ?poolStart (headerColumns ?h ! c)
                    (?start + r * headerExpaAreaSizePerRow ?h + rowWidth (take c (headerColumns ?h))))"
      if "r < expaRowCount ?h" for r
      unfolding cs [OF that] by (simp add: length_readCells readCells_nth e)
    with f lr show ?thesis
      unfolding sheetAsDeclared_def Let_def by blast
  qed
  moreover have "cutEntryWarned view ?poolStart (wsa @ wsb @ wsc)"
    using parseChnk_cutEntryWarned [OF c] unfolding cutEntryWarned_def by auto
  ultimately show ?thesis
    using p l by blast
qed


subsection \<open>Truncated pool entries and cells out of bounds\<close>

lemma parseChnkEntries_header_truncated:
  "i < n \<Longrightarrow> length view < off + 8 \<Longrightarrow>
   parseChnkEntries view n i off m ws = (m, ws @ [ChnkEntryHeaderTruncated (i + 1) n])"
  by (subst parseChnkEntries.simps) simp

lemma parseChnkEntries_at_end:
  "parseChnkEntries view n i (length view) m ws =
     (m, ws @ (if i < n then [ChnkEntryHeaderTruncated (i + 1) n] else []))"
  by (subst parseChnkEntries.simps) simp

lemma parseChnkEntries_body_truncated:
  assumes "i < n" and "off + 8 \<le> length view"
    and "length view < off + 8 + uint32At view (off + 4)"
  shows "parseChnkEntries view n i off m ws =
     parseChnkEntries view n (i + 1) (min (off + (8 + uint32At view (off + 4))) (length view)) m
       (ws @ [ChnkEntryTextBeyondEOF (i + 1) n (uint32At view off) (uint32At view (off + 4))
                (off + 8) (length view)])"
  using assms by (subst parseChnkEntries.simps) (simp add: Let_def min_def)

text \<open>
  Claim C4. (1) A pool entry whose 8-byte header does not fit ends the pool pass with a
  warning. (2) A pool entry whose declared body does not fit is skipped with a warning: the
  map stays as it was, and the cursor moves on by the declared size, clamped at the end of
  the buffer. (3) Whenever the magic, the sheet count, the sheet headers and the entry count
  of the pool can be read, the parser returns a file, and this file is the one that the
  buffer declares: one sheet for each header, with the declared name, columns and number of
  rows; every INT cell is the integer at its offset, or 0 when the four bytes do not fit;
  every string cell is the text of the last pool entry for its offset among the entries
  before the first cut one, or the empty string when there is none; and the warning for
  the first cut entry is among the warnings of the parse.
\<close>

theorem parse_tolerates_truncation:
  "(i < n \<and> length view < off + 8 \<longrightarrow>
      parseChnkEntries view n i off m ws = (m, ws @ [ChnkEntryHeaderTruncated (i + 1) n]))
   \<and> (i < n \<and> off + 8 \<le> length view \<and> length view < off + 8 + uint32At view (off + 4) \<longrightarrow>
      parseChnkEntries view n i off m ws =
        parseChnkEntries view n (i + 1) (min (off + (8 + uint32At view (off + 4))) (length view)) m
          (ws @ [ChnkEntryTextBeyondEOF (i + 1) n (uint32At view off) (uint32At view (off + 4))
                   (off + 8) (length view)])
      \<and> fst (parseChnkEntries view n i off m ws) = m)
   \<and> (take 4 view = EXPA_MAGIC_BYTES \<and> 8 \<le> length view
       \<and> headersFrom view 8 (uint32At view 4) off0 \<and> \<not> chnkCountCut view \<longrightarrow>
      (\<exists>ss ws'. parseMbeFile now view = Inr (\<lparr>sheets = ss\<rparr>, ws')
         \<and> length ss = uint32At view 4
         \<and> (\<forall>s<length ss. sheetAsDeclared view off0 s (ss ! s))
         \<and> cutEntryWarned view (off0 + declaredData view 8 (uint32At view 4)) ws'))"
proof (intro conjI impI; (elim conjE)?)
  assume "i < n" "length view < off + 8"
  then show "parseChnkEntries view n i off m ws = (m, ws @ [ChnkEntryHeaderTruncated (i + 1) n])"
    by (rule parseChnkEntries_header_truncated)
next
  assume a: "i < n" "off + 8 \<le> length view" "length view < off + 8 + uint32At view (off + 4)"
  then show "parseChnkEntries view n i off m ws =
        parseChnkEntries view n (i + 1) (min (off + (8 + uint32At view (off + 4))) (length view)) m
          (ws @ [ChnkEntryTextBeyondEOF (i + 1) n (uint32At view off) (uint32At view (off + 4))
                   (off + 8) (length view)])"
    by (rule parseChnkEntries_body_truncated)
  have "min (off + (8 + uint32At view (off + 4))) (length view) = length view"
    using a(3) by simp
  then show "fst (parseChnkEntries view n i off m ws) = m"
    by (simp add: parseChnkEntries_body_truncated [OF a] parseChnkEntries_at_end)
next
  assume "take 4 view = EXPA_MAGIC_BYTES" "8 \<le> length view"
    "headersFrom view 8 (uint32At view 4) off0" "\<not> chnkCountCut view"
  then show "\<exists>ss ws'. parseMbeFile now view = Inr (\<lparr>sheets = ss\<rparr>, ws')
         \<and> length ss = uint32At view 4
         \<and> (\<forall>s<length ss. sheetAsDeclared view off0 s (ss ! s))
         \<and> cutEntryWarned view (off0 + declaredData view 8 (uint32At view 4)) ws'"
    by (rule parseMbeFile_declared)
qed

text \<open>The bytes generated for the example file (one row \<open>[7, "hi"]\<close>) without the last
  byte: the body of the only pool entry extends beyond the end.\<close>

definition truncatedBytes :: "byte list" where
  "truncatedBytes =
     [0x45, 0x58, 0x50, 0x41, 1, 0, 0, 0,
      4, 0, 0, 0, 0x6D, 0, 0, 0, 2, 0, 0, 0, 2, 0, 0, 0, 8, 0, 0, 0, 12, 0, 0, 0, 1, 0, 0, 0,
      7, 0, 0, 0, 0, 0, 0, 0, 0, 0, 0, 0,
      0x43, 0x48, 0x4E, 0x4B, 1, 0, 0, 0,
      40, 0, 0, 0, 4, 0, 0, 0, 0x68, 0x69, 0]"

text \<open>One sheet with the empty name and one INT column that announces two rows and holds
  the four bytes of one.\<close>

definition shortRowsBytes :: "byte list" where
  "shortRowsBytes =
     [0x45, 0x58, 0x50, 0x41, 1, 0, 0, 0,
      0, 0, 0, 0, 1, 0, 0, 0, 2, 0, 0, 0, 4, 0, 0, 0, 2, 0, 0, 0,
      7, 0, 0, 0]"

lemma truncatedBytes_header:
  "headerComplete truncatedBytes 8" "headerEnd truncatedBytes 8 = 36"
  "areaAt truncatedBytes 8 = 12" "rowCountAt truncatedBytes 8 = 1"
  "sheetHeaderAt truncatedBytes 8 =
     \<lparr>headerName = [0x6D],
      headerColumns = [\<lparr>type = INT', typeName = TN_int\<rparr>, \<lparr>type = STRID', typeName = TN_strID\<rparr>],
      headerExpaAreaSizePerRow = 12, expaRowCount = 1, sheetExpaDataStartOffset = None\<rparr>"
proof -
  have len: "length truncatedBytes = 67"
    by (simp add: truncatedBytes_def)
  have nl: "nameLenAt truncatedBytes 8 = 4"
    by (simp add: truncatedBytes_def nameLenAt_def uint32At_def)
  have cc: "columnCountAt truncatedBytes 8 = 2"
    unfolding columnCountAt_def nl by (simp add: truncatedBytes_def uint32At_def)
  have to: "tagOffset truncatedBytes 8 j = 20 + 4 * j" for j
    unfolding tagOffset_def nl by simp
  have tg: "uint32At truncatedBytes 20 = 2" "uint32At truncatedBytes 24 = 8"
    by (simp_all add: truncatedBytes_def uint32At_def)
  have tv: "tagValid truncatedBytes 8 j" if "j < 2" for j
  proof -
    from that have "j = 0 \<or> j = 1" by arith
    then show ?thesis
      unfolding tagValid_def to using tg by (auto simp: len)
  qed
  show e: "headerEnd truncatedBytes 8 = 36"
    unfolding headerEnd_def to cc by simp
  show d: "areaAt truncatedBytes 8 = 12" "rowCountAt truncatedBytes 8 = 1"
    unfolding areaAt_def rowCountAt_def to cc
    by (simp_all add: truncatedBytes_def uint32At_def)
  show "headerComplete truncatedBytes 8"
    unfolding headerComplete_def countsFit_def nl cc e using tv len by simp
  have nm: "fst (readString truncatedBytes (8 + 4) 4) = [0x6D]"
    by (simp add: readString_def len textDecoder_decode_def Let_def)
       (simp add: truncatedBytes_def utf8_decode.simps)
  have u: "[0..<2] = [0, Suc 0]"
    by (simp add: upt_rec)
  show "sheetHeaderAt truncatedBytes 8 =
     \<lparr>headerName = [0x6D],
      headerColumns = [\<lparr>type = INT', typeName = TN_int\<rparr>, \<lparr>type = STRID', typeName = TN_strID\<rparr>],
      headerExpaAreaSizePerRow = 12, expaRowCount = 1, sheetExpaDataStartOffset = None\<rparr>"
    unfolding sheetHeaderAt_def nl cc d to nm u using tg by (simp add: columnOfTag_def)
qed

lemma shortRowsBytes_header:
  "headerComplete shortRowsBytes 8" "headerEnd shortRowsBytes 8 = 28"
  "areaAt shortRowsBytes 8 = 4" "rowCountAt shortRowsBytes 8 = 2"
  "sheetHeaderAt shortRowsBytes 8 =
     \<lparr>headerName = [], headerColumns = [\<lparr>type = INT', typeName = TN_int\<rparr>],
      headerExpaAreaSizePerRow = 4, expaRowCount = 2, sheetExpaDataStartOffset = None\<rparr>"
proof -
  have len: "length shortRowsBytes = 32"
    by (simp add: shortRowsBytes_def)
  have nl: "nameLenAt shortRowsBytes 8 = 0"
    by (simp add: shortRowsBytes_def nameLenAt_def uint32At_def)
  have cc: "columnCountAt shortRowsBytes 8 = 1"
    unfolding columnCountAt_def nl by (simp add: shortRowsBytes_def uint32At_def)
  have to: "tagOffset shortRowsBytes 8 j = 16 + 4 * j" for j
    unfolding tagOffset_def nl by simp
  have tg: "uint32At shortRowsBytes 16 = 2"
    by (simp add: shortRowsBytes_def uint32At_def)
  have tv: "tagValid shortRowsBytes 8 j" if "j < 1" for j
    using that unfolding tagValid_def to using tg by (simp add: len)
  show e: "headerEnd shortRowsBytes 8 = 28"
    unfolding headerEnd_def to cc by simp
  show d: "areaAt shortRowsBytes 8 = 4" "rowCountAt shortRowsBytes 8 = 2"
    unfolding areaAt_def rowCountAt_def to cc
    by (simp_all add: shortRowsBytes_def uint32At_def)
  show "headerComplete shortRowsBytes 8"
    unfolding headerComplete_def countsFit_def nl cc e using tv len by simp
  show "sheetHeaderAt shortRowsBytes 8 =
     \<lparr>headerName = [], headerColumns = [\<lparr>type = INT', typeName = TN_int\<rparr>],
      headerExpaAreaSizePerRow = 4, expaRowCount = 2, sheetExpaDataStartOffset = None\<rparr>"
    unfolding sheetHeaderAt_def nl cc d to using tg by (simp add: columnOfTag_def readString_def)
qed

theorem parse_tolerates_truncation_witness:
  "parseChnkEntries truncatedBytes 2 1 67 Map.empty [] = (Map.empty, [ChnkEntryHeaderTruncated 2 2])
   \<and> parseChnkEntries truncatedBytes 1 0 56 Map.empty []
       = (Map.empty, [ChnkEntryTextBeyondEOF 1 1 40 4 64 67])
   \<and> (\<exists>ss ws'. parseMbeFile exampleNow truncatedBytes = Inr (\<lparr>sheets = ss\<rparr>, ws')
         \<and> length ss = 1 \<and> length (rows (ss ! 0)) = 1
         \<and> cells (rows (ss ! 0) ! 0) ! 0 = Num 7 \<and> cells (rows (ss ! 0) ! 0) ! 1 = Str []
         \<and> ChnkEntryTextBeyondEOF 1 1 40 4 64 67 \<in> set ws')
   \<and> (\<exists>ss ws'. parseMbeFile exampleNow shortRowsBytes = Inr (\<lparr>sheets = ss\<rparr>, ws')
         \<and> length ss = 1 \<and> length (rows (ss ! 0)) = 2
         \<and> cells (rows (ss ! 0) ! 0) ! 0 = Num 7 \<and> cells (rows (ss ! 0) ! 1) ! 0 = Num 0)"
proof -
  let ?m = "Map.empty :: chnkMap"
  let ?w = "ChnkEntryTextBeyondEOF 1 1 40 4 64 67"
  have len: "length truncatedBytes = 67"
    by (simp add: truncatedBytes_def)
  have u: "uint32At truncatedBytes 56 = 40" "uint32At truncatedBytes 60 = 4"
    by (simp_all add: truncatedBytes_def uint32At_def)
  have 1: "parseChnkEntries truncatedBytes 2 1 67 ?m [] = (?m, [ChnkEntryHeaderTruncated 2 2])"
    using parse_tolerates_truncation [where i = 1 and n = 2 and view = truncatedBytes
        and off = 67 and m = ?m and ws = "[]"]
    by (simp add: len)
  have 2: "parseChnkEntries truncatedBytes 1 0 56 ?m [] = (?m, [?w])"
  proof -
    have "parseChnkEntries truncatedBytes 1 0 56 ?m [] = parseChnkEntries truncatedBytes 1 1 67 ?m [?w]"
      using parse_tolerates_truncation [where i = 0 and n = 1 and view = truncatedBytes
          and off = 56 and m = ?m and ws = "[]"]
      by (simp add: len u)
    then show ?thesis
      by (simp add: parseChnkEntries.simps [of _ "Suc 0" "Suc 0"])
  qed
  have 3: "\<exists>ss ws'. parseMbeFile exampleNow truncatedBytes = Inr (\<lparr>sheets = ss\<rparr>, ws')
         \<and> length ss = 1 \<and> length (rows (ss ! 0)) = 1
         \<and> cells (rows (ss ! 0) ! 0) ! 0 = Num 7 \<and> cells (rows (ss ! 0) ! 0) ! 1 = Str []
         \<and> ?w \<in> set ws'"
  proof -
    have t: "take 4 truncatedBytes = EXPA_MAGIC_BYTES" "8 \<le> length truncatedBytes"
      "uint32At truncatedBytes 4 = 1"
      by (simp_all add: truncatedBytes_def EXPA_MAGIC_BYTES_def uint32At_def)
    have h: "headersFrom truncatedBytes 8 (Suc 0) 36"
      using headersFrom.more [OF truncatedBytes_header(1) headersFrom.none]
      unfolding truncatedBytes_header(2) .
    have s1: "uint32At truncatedBytes 4 = Suc 0"
      using t(3) by simp
    have dd: "declaredData truncatedBytes 8 (Suc 0) = 12"
      by (simp add: truncatedBytes_header(3,4))
    have fm: "findMagic truncatedBytes CHNK_MAGIC_BYTES 48 = Some 48"
      by (simp add: truncatedBytes_def findMagic.simps CHNK_MAGIC_BYTES_def)
    have n: "\<not> chnkCountCut truncatedBytes"
    proof
      assume "chnkCountCut truncatedBytes"
      then obtain off mo where o: "headersFrom truncatedBytes 8 (Suc 0) off"
        and f: "firstMagic truncatedBytes CHNK_MAGIC_BYTES (off + declaredData truncatedBytes 8 (Suc 0)) mo"
        and l: "length truncatedBytes < mo + 8"
        unfolding chnkCountCut_def s1 by blast
      from headersFrom_unique [OF o h] have "off = 36" .
      with f dd have "findMagic truncatedBytes CHNK_MAGIC_BYTES 48 = Some mo"
        by (simp add: findMagic_iff)
      with fm l len show False by simp
    qed
    have pt: "poolText truncatedBytes 48 40 = []"
      unfolding poolText_def fm
      by (simp add: truncatedBytes_def uint32At_def entryComplete_def)
    have i7: "int32At truncatedBytes 36 = 7"
      by (simp add: truncatedBytes_def int32At_def uint32At_def)
    have "take 4 truncatedBytes = EXPA_MAGIC_BYTES \<and> 8 \<le> length truncatedBytes
           \<and> headersFrom truncatedBytes 8 (uint32At truncatedBytes 4) 36 \<and> \<not> chnkCountCut truncatedBytes"
      unfolding s1 using t(1,2) h n by blast
    from parse_tolerates_truncation [where view = truncatedBytes and ?off0.0 = 36
        and now = exampleNow, THEN conjunct2, THEN conjunct2, THEN mp, OF this]
    obtain ss ws' where p: "parseMbeFile exampleNow truncatedBytes = Inr (\<lparr>sheets = ss\<rparr>, ws')"
      and l: "length ss = 1"
      and a: "\<forall>s<length ss. sheetAsDeclared truncatedBytes 36 s (ss ! s)"
      and cw: "cutEntryWarned truncatedBytes (36 + declaredData truncatedBytes 8 1) ws'"
      unfolding t(3) by blast
    from a l have d: "sheetAsDeclared truncatedBytes 36 0 (ss ! 0)"
      by simp
    have fw: "firstMagic truncatedBytes CHNK_MAGIC_BYTES 48 48"
      using fm by (simp add: findMagic_iff)
    have cnt: "uint32At truncatedBytes (48 + 4) = 1"
      by (simp add: truncatedBytes_def uint32At_def)
    have ne: "\<not> entryComplete truncatedBytes 56"
      by (simp add: entryComplete_def len u)
    have "firstMagic truncatedBytes CHNK_MAGIC_BYTES (36 + declaredData truncatedBytes 8 1) 48
          \<and> 0 < uint32At truncatedBytes (48 + 4)
          \<and> entriesFrom truncatedBytes (48 + 8) 0 56 \<and> \<not> entryComplete truncatedBytes 56"
      using fw cnt ne entriesFrom.no_entry [of truncatedBytes 56] dd by simp
    with cw have "entryWarning truncatedBytes 56 (0 + 1) (uint32At truncatedBytes (48 + 4)) \<in> set ws'"
      unfolding cutEntryWarned_def by blast
    then have w: "?w \<in> set ws'"
      unfolding cnt by (simp add: entryWarning_def len u)
    from d have "length (rows (ss ! 0)) = 1
         \<and> cells (rows (ss ! 0) ! 0) ! 0 = Num 7 \<and> cells (rows (ss ! 0) ! 0) ! 1 = Str []"
      unfolding sheetAsDeclared_def s1 Let_def headersList.simps nth_Cons_0 truncatedBytes_header(5)
      by (simp add: truncatedBytes_header(3,4) expectedCell_def rowWidth_def cellWidth_def
          len i7 pt All_less_Suc)
    with p l w show ?thesis by blast
  qed
  have 4: "\<exists>ss ws'. parseMbeFile exampleNow shortRowsBytes = Inr (\<lparr>sheets = ss\<rparr>, ws')
         \<and> length ss = 1 \<and> length (rows (ss ! 0)) = 2
         \<and> cells (rows (ss ! 0) ! 0) ! 0 = Num 7 \<and> cells (rows (ss ! 0) ! 1) ! 0 = Num 0"
  proof -
    have len: "length shortRowsBytes = 32"
      by (simp add: shortRowsBytes_def)
    have t: "take 4 shortRowsBytes = EXPA_MAGIC_BYTES" "8 \<le> length shortRowsBytes"
      "uint32At shortRowsBytes 4 = 1"
      by (simp_all add: shortRowsBytes_def EXPA_MAGIC_BYTES_def uint32At_def)
    have h: "headersFrom shortRowsBytes 8 (Suc 0) 28"
      using headersFrom.more [OF shortRowsBytes_header(1) headersFrom.none]
      unfolding shortRowsBytes_header(2) .
    have s1: "uint32At shortRowsBytes 4 = Suc 0"
      using t(3) by simp
    have n: "\<not> chnkCountCut shortRowsBytes"
    proof
      assume "chnkCountCut shortRowsBytes"
      then obtain off mo where o: "headersFrom shortRowsBytes 8 (Suc 0) off"
        and f: "firstMagic shortRowsBytes CHNK_MAGIC_BYTES (off + declaredData shortRowsBytes 8 (Suc 0)) mo"
        unfolding chnkCountCut_def s1 by blast
      from headersFrom_unique [OF o h] have "off = 28" .
      with f have "36 \<le> mo" "mo + 4 \<le> length shortRowsBytes"
        by (simp_all add: firstMagic_def magicAt_def CHNK_MAGIC_BYTES_def shortRowsBytes_header(3,4))
      with len show False by simp
    qed
    have i7: "int32At shortRowsBytes 28 = 7"
      by (simp add: shortRowsBytes_def int32At_def uint32At_def)
    have "take 4 shortRowsBytes = EXPA_MAGIC_BYTES \<and> 8 \<le> length shortRowsBytes
           \<and> headersFrom shortRowsBytes 8 (uint32At shortRowsBytes 4) 28 \<and> \<not> chnkCountCut shortRowsBytes"
      unfolding s1 using t(1,2) h n by blast
    from parse_tolerates_truncation [where view = shortRowsBytes and ?off0.0 = 28
        and now = exampleNow, THEN conjunct2, THEN conjunct2, THEN mp, OF this]
    obtain ss ws' where p: "parseMbeFile exampleNow shortRowsBytes = Inr (\<lparr>sheets = ss\<rparr>, ws')"
      and l: "length ss = 1"
      and a: "\<forall>s<length ss. sheetAsDeclared shortRowsBytes 28 s (ss ! s)"
      unfolding t(3) by blast
    from a l have d: "sheetAsDeclared shortRowsBytes 28 0 (ss ! 0)"
      by simp
    from d have "length (rows (ss ! 0)) = 2
         \<and> cells (rows (ss ! 0) ! 0) ! 0 = Num 7 \<and> cells (rows (ss ! 0) ! 1) ! 0 = Num 0"
      unfolding sheetAsDeclared_def s1 Let_def headersList.simps nth_Cons_0 shortRowsBytes_header(5)
      by (simp add: shortRowsBytes_header(3,4) expectedCell_def rowWidth_def len i7 All_less_Suc
          numeral_2_eq_2)
    with p l show ?thesis by blast
  qed
  from 1 2 3 4 show ?thesis by blast
qed


section \<open>Round trip\<close>

subsection \<open>UTF-8\<close>

text \<open>A Unicode scalar value: a code point that is no surrogate.\<close>

definition isScalar :: "nat \<Rightarrow> bool" where
  "isScalar cp = (cp \<le> 0x10FFFF \<and> \<not> isSurrogate cp)"

lemma mod_plus_mult: "a < n \<Longrightarrow> (q * n + a) mod n = (a::nat)"
  by simp

lemma dec_ascii:
  "x \<le> 0x7F \<Longrightarrow> utf8_decode (x # bs) 0 0 0 0x80 0xBF = x # utf8_decode bs 0 0 0 0x80 0xBF"
  by simp

lemma dec_lead2:
  "0xC2 \<le> x \<Longrightarrow> x \<le> 0xDF \<Longrightarrow>
   utf8_decode (x # bs) 0 0 0 0x80 0xBF = utf8_decode bs (x mod 32) 0 1 0x80 0xBF"
  by simp

lemma dec_lead3:
  "0xE0 \<le> x \<Longrightarrow> x \<le> 0xEF \<Longrightarrow>
   utf8_decode (x # bs) 0 0 0 0x80 0xBF =
     utf8_decode bs (x mod 16) 0 2 (if x = 0xE0 then 0xA0 else 0x80)
       (if x = 0xED then 0x9F else 0xBF)"
  by simp

lemma dec_lead4:
  "0xF0 \<le> x \<Longrightarrow> x \<le> 0xF4 \<Longrightarrow>
   utf8_decode (x # bs) 0 0 0 0x80 0xBF =
     utf8_decode bs (x mod 8) 0 3 (if x = 0xF0 then 0x90 else 0x80)
       (if x = 0xF4 then 0x8F else 0xBF)"
  by simp

lemma dec_cont:
  "needed \<noteq> 0 \<Longrightarrow> lower \<le> x \<Longrightarrow> x \<le> upper \<Longrightarrow> seen + 1 \<noteq> needed \<Longrightarrow>
   utf8_decode (x # bs) cp seen needed lower upper =
     utf8_decode bs (cp * 64 + x mod 64) (seen + 1) needed 0x80 0xBF"
  by (simp add: Let_def)

lemma dec_last:
  "needed \<noteq> 0 \<Longrightarrow> lower \<le> x \<Longrightarrow> x \<le> upper \<Longrightarrow> seen + 1 = needed \<Longrightarrow>
   utf8_decode (x # bs) cp seen needed lower upper =
     (cp * 64 + x mod 64) # utf8_decode bs 0 0 0 0x80 0xBF"
  by (simp add: Let_def)

declare utf8_decode.simps(2) [simp del]

lemma utf8_decode_1:
  assumes "c < 0x80"
  shows "utf8_decode (utf8_bytes c @ bs) 0 0 0 0x80 0xBF = c # utf8_decode bs 0 0 0 0x80 0xBF"
  using assms by (simp add: utf8_bytes_def dec_ascii)

lemma utf8_decode_2:
  assumes "0x80 \<le> c" "c < 0x800"
  shows "utf8_decode (utf8_bytes c @ bs) 0 0 0 0x80 0xBF = c # utf8_decode bs 0 0 0 0x80 0xBF"
proof -
  define a where "a = c div 64"
  define b where "b = c mod 64"
  have c: "a * 64 + b = c" and b: "b < 64"
    by (simp_all add: a_def b_def)
  have a: "2 \<le> a" "a < 32"
    using assms by (simp_all add: a_def)
  have bytes: "utf8_bytes c = [0xC0 + a, 0x80 + b]"
    using assms by (simp add: utf8_bytes_def a_def b_def)
  have 1: "utf8_decode ((0xC0 + a) # (0x80 + b) # bs) 0 0 0 0x80 0xBF
      = utf8_decode ((0x80 + b) # bs) ((0xC0 + a) mod 32) 0 1 0x80 0xBF"
    using a by (intro dec_lead2) simp_all
  have 2: "utf8_decode ((0x80 + b) # bs) ((0xC0 + a) mod 32) 0 1 0x80 0xBF
      = (((0xC0 + a) mod 32) * 64 + (0x80 + b) mod 64) # utf8_decode bs 0 0 0 0x80 0xBF"
    using b by (intro dec_last) simp_all
  have m: "(0xC0 + a) mod 32 = a" "(0x80 + b) mod 64 = b"
    using mod_plus_mult [of a 32 6] mod_plus_mult [of b 64 2] a b by simp_all
  have "utf8_decode (utf8_bytes c @ bs) 0 0 0 0x80 0xBF
      = utf8_decode ((0xC0 + a) # (0x80 + b) # bs) 0 0 0 0x80 0xBF"
    by (simp only: bytes append_Cons append_Nil)
  also note 1
  also note 2
  also have "(((0xC0 + a) mod 32) * 64 + (0x80 + b) mod 64) = c"
    by (simp only: m c)
  finally show ?thesis .
qed

lemma utf8_decode_3:
  assumes "0x800 \<le> c" "c < 0x10000" "\<not> isSurrogate c"
  shows "utf8_decode (utf8_bytes c @ bs) 0 0 0 0x80 0xBF = c # utf8_decode bs 0 0 0 0x80 0xBF"
proof -
  define a where "a = c div 64 div 64"
  define b where "b = c div 64 mod 64"
  define d where "d = c mod 64"
  have c: "(a * 64 + b) * 64 + d = c" and b: "b < 64" and d: "d < 64"
    by (simp_all add: a_def b_def d_def)
  have a: "a < 16"
    using assms(2) by (simp add: a_def)
  have lo: "32 \<le> b" if "a = 0"
    using assms(1) c d that by simp
  have hi: "b < 32" if "a = 13"
    using assms(3) c b d that by (simp add: isSurrogate_def)
  have bytes: "utf8_bytes c = [0xE0 + a, 0x80 + b, 0x80 + d]"
    using assms by (simp add: utf8_bytes_def a_def b_def d_def)
  let ?lo = "if 0xE0 + a = 0xE0 then 0xA0 else (0x80::nat)"
  let ?hi = "if 0xE0 + a = 0xED then 0x9F else (0xBF::nat)"
  have 1: "utf8_decode ((0xE0 + a) # (0x80 + b) # (0x80 + d) # bs) 0 0 0 0x80 0xBF
      = utf8_decode ((0x80 + b) # (0x80 + d) # bs) ((0xE0 + a) mod 16) 0 2 ?lo ?hi"
    using a by (intro dec_lead3) simp_all
  have rng: "?lo \<le> 0x80 + b" "0x80 + b \<le> ?hi"
    using lo hi b by auto
  have 2: "utf8_decode ((0x80 + b) # (0x80 + d) # bs) ((0xE0 + a) mod 16) 0 2 ?lo ?hi
      = utf8_decode ((0x80 + d) # bs) ((0xE0 + a) mod 16 * 64 + (0x80 + b) mod 64) (0 + 1) 2 0x80 0xBF"
    using rng by (intro dec_cont) simp_all
  have 3: "utf8_decode ((0x80 + d) # bs) ((0xE0 + a) mod 16 * 64 + (0x80 + b) mod 64) (0 + 1) 2 0x80 0xBF
      = (((0xE0 + a) mod 16 * 64 + (0x80 + b) mod 64) * 64 + (0x80 + d) mod 64)
          # utf8_decode bs 0 0 0 0x80 0xBF"
    using d by (intro dec_last) simp_all
  have m: "(0xE0 + a) mod 16 = a" "(0x80 + b) mod 64 = b" "(0x80 + d) mod 64 = d"
    using mod_plus_mult [of a 16 14] mod_plus_mult [of b 64 2] mod_plus_mult [of d 64 2] a b d
    by simp_all
  have "utf8_decode (utf8_bytes c @ bs) 0 0 0 0x80 0xBF
      = utf8_decode ((0xE0 + a) # (0x80 + b) # (0x80 + d) # bs) 0 0 0 0x80 0xBF"
    by (simp only: bytes append_Cons append_Nil)
  also note 1
  also note 2
  also note 3
  also have "(((0xE0 + a) mod 16 * 64 + (0x80 + b) mod 64) * 64 + (0x80 + d) mod 64) = c"
    by (simp only: m c)
  finally show ?thesis .
qed


lemma utf8_decode_4:
  assumes "0x10000 \<le> c" "c \<le> 0x10FFFF"
  shows "utf8_decode (utf8_bytes c @ bs) 0 0 0 0x80 0xBF = c # utf8_decode bs 0 0 0 0x80 0xBF"
proof -
  define a where "a = c div 64 div 64 div 64"
  define b where "b = c div 64 div 64 mod 64"
  define d where "d = c div 64 mod 64"
  define e where "e = c mod 64"
  have c: "((a * 64 + b) * 64 + d) * 64 + e = c" and b: "b < 64" and d: "d < 64" and e: "e < 64"
    by (simp_all add: a_def b_def d_def e_def)
  have a: "a \<le> 4"
    using assms(2) by (simp add: a_def)
  have lo: "16 \<le> b" if "a = 0"
    using assms(1) c b d e that by simp
  have hi: "b < 16" if "a = 4"
    using assms(2) c b d e that by simp
  have bytes: "utf8_bytes c = [0xF0 + a, 0x80 + b, 0x80 + d, 0x80 + e]"
    using assms by (simp add: utf8_bytes_def a_def b_def d_def e_def)
  let ?lo = "if 0xF0 + a = 0xF0 then 0x90 else (0x80::nat)"
  let ?hi = "if 0xF0 + a = 0xF4 then 0x8F else (0xBF::nat)"
  have 1: "utf8_decode ((0xF0 + a) # (0x80 + b) # (0x80 + d) # (0x80 + e) # bs) 0 0 0 0x80 0xBF
      = utf8_decode ((0x80 + b) # (0x80 + d) # (0x80 + e) # bs) ((0xF0 + a) mod 8) 0 3 ?lo ?hi"
    using a by (intro dec_lead4) simp_all
  have rng: "?lo \<le> 0x80 + b" "0x80 + b \<le> ?hi"
    using lo hi b by auto
  have 2: "utf8_decode ((0x80 + b) # (0x80 + d) # (0x80 + e) # bs) ((0xF0 + a) mod 8) 0 3 ?lo ?hi
      = utf8_decode ((0x80 + d) # (0x80 + e) # bs) ((0xF0 + a) mod 8 * 64 + (0x80 + b) mod 64)
          (0 + 1) 3 0x80 0xBF"
    using rng by (intro dec_cont) simp_all
  have 3: "utf8_decode ((0x80 + d) # (0x80 + e) # bs) ((0xF0 + a) mod 8 * 64 + (0x80 + b) mod 64)
          (0 + 1) 3 0x80 0xBF
      = utf8_decode ((0x80 + e) # bs)
          (((0xF0 + a) mod 8 * 64 + (0x80 + b) mod 64) * 64 + (0x80 + d) mod 64) (0 + 1 + 1) 3
          0x80 0xBF"
    using d by (intro dec_cont) simp_all
  have 4: "utf8_decode ((0x80 + e) # bs)
          (((0xF0 + a) mod 8 * 64 + (0x80 + b) mod 64) * 64 + (0x80 + d) mod 64) (0 + 1 + 1) 3
          0x80 0xBF
      = ((((0xF0 + a) mod 8 * 64 + (0x80 + b) mod 64) * 64 + (0x80 + d) mod 64) * 64
           + (0x80 + e) mod 64) # utf8_decode bs 0 0 0 0x80 0xBF"
    using e by (intro dec_last) simp_all
  have m: "(0xF0 + a) mod 8 = a" "(0x80 + b) mod 64 = b" "(0x80 + d) mod 64 = d"
    "(0x80 + e) mod 64 = e"
    using mod_plus_mult [of a 8 30] mod_plus_mult [of b 64 2] mod_plus_mult [of d 64 2]
      mod_plus_mult [of e 64 2] a b d e
    by simp_all
  have "utf8_decode (utf8_bytes c @ bs) 0 0 0 0x80 0xBF
      = utf8_decode ((0xF0 + a) # (0x80 + b) # (0x80 + d) # (0x80 + e) # bs) 0 0 0 0x80 0xBF"
    by (simp only: bytes append_Cons append_Nil)
  also note 1
  also note 2
  also note 3
  also note 4
  also have "((((0xF0 + a) mod 8 * 64 + (0x80 + b) mod 64) * 64 + (0x80 + d) mod 64) * 64
           + (0x80 + e) mod 64) = c"
    by (simp only: m c)
  finally show ?thesis .
qed

lemma utf8_decode_scalar:
  assumes "isScalar c"
  shows "utf8_decode (utf8_bytes (scalarValue c) @ bs) 0 0 0 0x80 0xBF
           = c # utf8_decode bs 0 0 0 0x80 0xBF"
proof -
  from assms have s: "scalarValue c = c" and le: "c \<le> 0x10FFFF" and ns: "\<not> isSurrogate c"
    by (simp_all add: isScalar_def scalarValue_def)
  consider "c < 0x80" | "0x80 \<le> c" "c < 0x800" | "0x800 \<le> c" "c < 0x10000" | "0x10000 \<le> c"
    by linarith
  then show ?thesis
    unfolding s
    by cases (simp_all add: utf8_decode_1 utf8_decode_2 utf8_decode_3 utf8_decode_4 le ns)
qed

lemma utf8_bytes_bound: "c \<le> 0x10FFFF \<Longrightarrow> b \<in> set (utf8_bytes c) \<Longrightarrow> b < 256"
  by (auto simp: utf8_bytes_def split: if_splits)

lemma utf8_bytes_nonzero: "0 < c \<Longrightarrow> b \<in> set (utf8_bytes c) \<Longrightarrow> 0 < b"
  by (auto simp: utf8_bytes_def split: if_splits)


lemma unat_of_nat_byte: "n < 256 \<Longrightarrow> unat (of_nat n :: byte) = n"
  by (simp add: unat_of_nat)

lemma scalarValue_le: "scalarValue c \<le> 0x10FFFF"
  by (simp add: scalarValue_def isSurrogate_def)

lemma decode_concat:
  "list_all isScalar s \<Longrightarrow>
   utf8_decode (concat (map (\<lambda>cp. utf8_bytes (scalarValue cp)) s) @ bs) 0 0 0 0x80 0xBF
     = s @ utf8_decode bs 0 0 0 0x80 0xBF"
  by (induction s) (simp_all add: utf8_decode_scalar)

lemma unat_encode:
  "map unat (textEncoder_encode s) = concat (map (\<lambda>cp. utf8_bytes (scalarValue cp)) s)"
proof -
  have 1: "map unat (map of_nat xs :: byte list) = xs" if "\<And>b. b \<in> set xs \<Longrightarrow> b < 256" for xs
    using that by (induction xs) (simp_all add: unat_of_nat_byte)
  have 2: "b < 256" if "b \<in> set (concat (map (\<lambda>cp. utf8_bytes (scalarValue cp)) s))" for b
    using that utf8_bytes_bound [OF scalarValue_le] by auto
  show ?thesis
    unfolding textEncoder_encode_def by (rule 1) (rule 2)
qed

lemma decode_encode:
  "list_all isScalar s \<Longrightarrow> textDecoder_decode (textEncoder_encode s) = s"
  using decode_concat [of s "[]"] by (simp add: textDecoder_decode_def unat_encode)

lemma encode_no_nul:
  assumes "0 \<notin> set s"
  shows "0 \<notin> set (textEncoder_encode s)"
proof
  assume "0 \<in> set (textEncoder_encode s)"
  then have "unat (0::byte) \<in> set (map unat (textEncoder_encode s))"
    by (metis image_eqI set_map)
  then obtain cp where cp: "cp \<in> set s" "0 \<in> set (utf8_bytes (scalarValue cp))"
    by (auto simp: unat_encode)
  from cp(1) assms have "0 < cp" by (metis gr0I)
  then have "0 < scalarValue cp"
    by (simp add: scalarValue_def)
  from utf8_bytes_nonzero [OF this cp(2)] show False by simp
qed

lemma encode_eq_Nil: "textEncoder_encode s = [] \<longleftrightarrow> s = []"
  by (cases s) (auto simp: textEncoder_encode_def utf8_bytes_def)



subsection \<open>Reading what was written\<close>

text \<open>The buffer holds the bytes \<open>bs\<close> at offset \<open>off\<close>.\<close>

definition bytesAt :: "byte list \<Rightarrow> nat \<Rightarrow> byte list \<Rightarrow> bool" where
  "bytesAt view off bs = (off + length bs \<le> length view \<and> take (length bs) (drop off view) = bs)"

lemma bytesAt_Nil [simp]: "bytesAt view off [] \<longleftrightarrow> off \<le> length view"
  by (simp add: bytesAt_def)

lemma bytesAt_append:
  "bytesAt view off (xs @ ys) \<longleftrightarrow> bytesAt view off xs \<and> bytesAt view (off + length xs) ys"
proof -
  have "take (length xs + length ys) (drop off view)
      = take (length xs) (drop off view) @ take (length ys) (drop (off + length xs) view)"
    by (simp add: take_add add.commute)
  then show ?thesis
    by (auto simp: bytesAt_def)
qed

lemma bytesAt_prefix: "bytesAt (X @ Y) (length X) Y"
  by (simp add: bytesAt_def)

lemma bytesAt_extend: "bytesAt view off bs \<Longrightarrow> bytesAt (view @ Z) off bs"
  by (simp add: bytesAt_def)

lemma bytesAt_length: "bytesAt view off bs \<Longrightarrow> off + length bs \<le> length view"
  by (simp add: bytesAt_def)

lemma bytesAt_nth:
  "bytesAt view off bs \<Longrightarrow> k < length bs \<Longrightarrow> view ! (off + k) = bs ! k"
proof -
  assume a: "bytesAt view off bs" and k: "k < length bs"
  then have "bs ! k = take (length bs) (drop off view) ! k"
    by (simp add: bytesAt_def)
  also have "\<dots> = drop off view ! k"
    using k by simp
  also have "\<dots> = view ! (off + k)"
    using a by (simp add: bytesAt_def)
  finally show ?thesis by simp
qed

lemma u32_value:
  "v mod 256 + 256 * (v div 256 mod 256 + 256 * (v div 256 div 256 mod 256
      + 256 * (v div 256 div 256 div 256 mod 256))) = (v::nat) mod 4294967296"
proof -
  have "v mod 4294967296 = v mod (256 * (256 * (256 * 256)))"
    by simp
  also have "\<dots> = 256 * (v div 256 mod (256 * (256 * 256))) + v mod 256"
    by (rule mod_mult2_eq)
  also have "v div 256 mod (256 * (256 * 256))
      = 256 * (v div 256 div 256 mod (256 * 256)) + v div 256 mod 256"
    by (rule mod_mult2_eq)
  also have "v div 256 div 256 mod (256 * 256)
      = 256 * (v div 256 div 256 div 256 mod 256) + v div 256 div 256 mod 256"
    by (rule mod_mult2_eq)
  finally show ?thesis
    by (simp add: add.commute)
qed

lemma uint32At_u32le:
  assumes "bytesAt view off (u32le v)"
  shows "uint32At view off = v mod 4294967296"
proof -
  have n: "view ! off = of_nat v" "view ! (off + 1) = of_nat (v div 256)"
    "view ! (off + 2) = of_nat (v div 256 div 256)"
    "view ! (off + 3) = of_nat (v div 256 div 256 div 256)"
    using bytesAt_nth [OF assms, of 0] bytesAt_nth [OF assms, of 1] bytesAt_nth [OF assms, of 2]
      bytesAt_nth [OF assms, of 3]
    by (simp_all add: u32le_def)
  have u: "unat (of_nat x :: byte) = x mod 256" for x
    by (simp add: unat_of_nat)
  show ?thesis
    unfolding uint32At_def n by (simp only: u u32_value)
qed


lemma getUint32_u32le:
  "bytesAt view off (u32le v) \<Longrightarrow> v < 4294967296 \<Longrightarrow> getUint32 view off = Inr v"
  using bytesAt_length [of view off "u32le v"]
  by (simp add: getUint32_def uint32At_u32le)

lemma int32At_i32le:
  assumes "bytesAt view off (i32le v)" and "- 2147483648 \<le> v" and "v < 2147483648"
  shows "int32At view off = v"
proof -
  have u: "uint32At view off = nat (v mod 4294967296)"
    using assms(1) uint32At_u32le [of view off "nat (v mod 4294967296)"]
    by (simp add: i32le_def nat_less_iff)
  show ?thesis
  proof (cases "0 \<le> v")
    case True
    with assms(3) have "v mod 4294967296 = v" by simp
    with True assms(3) show ?thesis
      by (simp add: int32At_def u Let_def)
  next
    case False
    with assms(2) have "(v + 4294967296) mod 4294967296 = v + 4294967296"
      by (intro mod_pos_pos_trivial) simp_all
    then have "v mod 4294967296 = v + 4294967296"
      by simp
    with False assms(2) show ?thesis
      by (simp add: int32At_def u Let_def)
  qed
qed

lemma readString_padded:
  assumes "bytesAt view off (enc @ replicate N 0)" and "1 \<le> N" and "0 \<notin> set enc"
  shows "readString view off (length enc + N) = (textDecoder_decode enc, [])"
proof -
  let ?len = "length enc + N"
  from assms(1) have b: "off + ?len \<le> length view"
    and t: "take ?len (drop off view) = enc @ replicate N 0"
    by (simp_all add: bytesAt_def)
  obtain K where N: "N = Suc K"
    using assms(2) by (cases N) simp_all
  have "takeWhile (\<lambda>b. b \<noteq> 0) (enc @ 0 # replicate K 0) = takeWhile (\<lambda>b. b \<noteq> 0) enc"
    by (rule takeWhile_tail) simp
  moreover have "takeWhile (\<lambda>b. b \<noteq> 0) enc = enc"
    using assms(3) by (auto simp: takeWhile_eq_all_conv)
  ultimately have tw: "takeWhile (\<lambda>b. b \<noteq> 0) (enc @ replicate N 0) = enc"
    by (simp add: N)
  have m: "min ?len (length view - off) = ?len"
    using b by simp
  show ?thesis
    using b assms(2) by (simp add: readString_def m t tw Let_def)
qed


subsection \<open>The bytes of the headers and of the EXPA data\<close>

definition typeTagBytes :: "ColumnType list \<Rightarrow> byte list" where
  "typeTagBytes ts = concat (map (\<lambda>t. u32le (columnTypeValue t)) ts)"

lemma length_typeTagBytes [simp]: "length (typeTagBytes ts) = 4 * length ts"
  by (induction ts) (simp_all add: typeTagBytes_def)

lemma typeTagBytes_Cons:
  "typeTagBytes (t # ts) = u32le (columnTypeValue t) @ typeTagBytes ts"
  by (simp add: typeTagBytes_def)

definition headerBytes :: "nat \<Rightarrow> SheetStructureInfo \<Rightarrow> byte list" where
  "headerBytes off info =
     u32le (paddingLoop (off + 4) (length (encodedNameBytes info)) 2)
     @ (encodedNameBytes info
        @ replicate (paddingLoop (off + 4) (length (encodedNameBytes info)) 2
                       - length (encodedNameBytes info)) 0)
     @ u32le (length (columnTypes info))
     @ typeTagBytes (columnTypes info)
     @ u32le (expaAreaSizePerRow info)
     @ u32le (rowCount info)"

fun headersBytes :: "nat \<Rightarrow> SheetStructureInfo list \<Rightarrow> byte list" where
  "headersBytes off [] = []"
| "headersBytes off (info # infos) =
     headerBytes off info @ headersBytes (off + headerSize off info) infos"

definition cellBytes :: "(jsstring \<Rightarrow> int) \<Rightarrow> cell list \<Rightarrow> MbeColumn \<times> nat \<Rightarrow> byte list" where
  "cellBytes strNum cs p =
     (if type (fst p) = INT' then i32le (jsNumber strNum (cellAt cs (snd p))) else replicate 8 0)"

definition rowBytes :: "(jsstring \<Rightarrow> int) \<Rightarrow> MbeColumn list \<Rightarrow> cell list \<Rightarrow> nat \<Rightarrow> byte list" where
  "rowBytes strNum cols cs c = concat (map (cellBytes strNum cs) (zip cols [c..<c + length cols]))"

definition sheetBytes :: "(jsstring \<Rightarrow> int) \<Rightarrow> MbeSheet \<Rightarrow> byte list" where
  "sheetBytes strNum sheet =
     concat (map (\<lambda>row. rowBytes strNum (columns sheet) (cells row) 0) (rows sheet))"

definition dataBytes :: "(jsstring \<Rightarrow> int) \<Rightarrow> MbeSheet list \<Rightarrow> byte list" where
  "dataBytes strNum ss = concat (map (sheetBytes strNum) ss)"

lemma toArrayBuffer_fold_append:
  assumes "\<And>x w. toArrayBuffer (f x w) = toArrayBuffer w @ g x"
  shows "toArrayBuffer (fold f xs w) = toArrayBuffer w @ concat (map g xs)"
  by (induction xs arbitrary: w) (simp_all add: assms)

lemma toArrayBuffer_fold_types:
  "toArrayBuffer (fold (\<lambda>t w. writeUint32 w (columnTypeValue t)) ts w)
     = toArrayBuffer w @ typeTagBytes ts"
  unfolding typeTagBytes_def by (rule toArrayBuffer_fold_append) simp

lemma toArrayBuffer_writeSheetHeader:
  "toArrayBuffer (writeSheetHeader w info) = toArrayBuffer w @ headerBytes (getCurrentOffset w) info"
  by (simp add: writeSheetHeader_def Let_def toArrayBuffer_fold_types headerBytes_def)

lemma length_headerBytes: "length (headerBytes off info) = headerSize off info"
  using paddingLoop_ge [of "length (encodedNameBytes info)" "off + 4"]
  by (simp add: headerBytes_def headerSize_def)

lemma toArrayBuffer_fold_writeSheetHeader:
  "toArrayBuffer (fold (\<lambda>info w. writeSheetHeader w info) infos w)
     = toArrayBuffer w @ headersBytes (getCurrentOffset w) infos"
  by (induction infos arbitrary: w)
    (simp_all add: toArrayBuffer_writeSheetHeader getCurrentOffset_writeSheetHeader)

lemma toArrayBuffer_writeCell_eq:
  "toArrayBuffer (writeCell strNum cs w p) = toArrayBuffer w @ cellBytes strNum cs p"
  using type_cases [of "fst p"]
  by (auto simp: writeCell_def cellBytes_def Let_def u32le_0)

lemma toArrayBuffer_writeRow:
  "toArrayBuffer (writeRow strNum cols w row) = toArrayBuffer w @ rowBytes strNum cols (cells row) 0"
  unfolding writeRow_def rowBytes_def
  by (simp add: toArrayBuffer_fold_append [where g = "cellBytes strNum (cells row)"]
      toArrayBuffer_writeCell_eq)

lemma toArrayBuffer_writeSheetData:
  "toArrayBuffer (writeSheetData strNum w sheet) = toArrayBuffer w @ sheetBytes strNum sheet"
  unfolding writeSheetData_def sheetBytes_def
  by (rule toArrayBuffer_fold_append) (rule toArrayBuffer_writeRow)

lemma toArrayBuffer_writeExpaData:
  "toArrayBuffer (writeExpaData strNum w F) = toArrayBuffer w @ dataBytes strNum (sheets F)"
  unfolding writeExpaData_def dataBytes_def
  by (rule toArrayBuffer_fold_append) (rule toArrayBuffer_writeSheetData)

lemma length_cellBytes: "length (cellBytes strNum cs p) = cellWidth (fst p)"
  by (simp add: cellBytes_def cellWidth_def)

lemma length_rowBytes: "length (rowBytes strNum cols cs c) = rowWidth cols"
proof (induction cols arbitrary: c)
  case Nil
  then show ?case by (simp add: rowBytes_def rowWidth_def)
next
  case (Cons col cols)
  have "rowBytes strNum (col # cols) cs c
      = cellBytes strNum cs (col, c) @ rowBytes strNum cols cs (Suc c)"
    unfolding rowBytes_def by (subst zip_upt_Cons) simp
  then show ?case
    using Cons.IH [of "Suc c"] by (simp add: length_cellBytes rowWidth_def)
qed

lemma rowBytes_Cons:
  "rowBytes strNum (col # cols) cs c = cellBytes strNum cs (col, c) @ rowBytes strNum cols cs (Suc c)"
  unfolding rowBytes_def by (subst zip_upt_Cons) simp

lemma length_sheetBytes:
  "length (sheetBytes strNum sheet) = rowWidth (columns sheet) * length (rows sheet)"
  by (simp add: sheetBytes_def length_concat comp_def length_rowBytes sum_list_triv)

lemma length_dataBytes: "length (dataBytes strNum ss) = dataSize ss"
  by (simp add: dataBytes_def dataSize_def length_concat comp_def length_sheetBytes)

definition headerPart :: "MbeFile \<Rightarrow> byte list" where
  "headerPart F =
     EXPA_MAGIC_BYTES @ u32le (length (sheets F))
     @ headersBytes 8 (map structureInfoOf (sheets F))"

lemma toArrayBuffer_headerPhase: "toArrayBuffer (writer (headerPhase F)) = headerPart F"
  by (simp add: headerPhase_eq toArrayBuffer_fold_writeSheetHeader headerPart_def newWriter_simps
      EXPA_MAGIC_BYTES_def)

lemma length_headerPart: "length (headerPart F) = totalHeaderSize F"
  using okWriter_headerPhase [of F]
  by (simp add: okWriter_def headerPhase_offset toArrayBuffer_headerPhase)

definition poolPart :: "MbeFile \<Rightarrow> byte list" where
  "poolPart F =
     (if chnkRawStrings (headerPhase F) = [] then []
      else CHNK_MAGIC_BYTES @ u32le (length (chnkRawStrings (headerPhase F)))
           @ poolBytes (totalHeaderSize F + dataSize (sheets F) + 8) (chnkRawStrings (headerPhase F)))"

lemma generateMbeFile_parts:
  "generateMbeFile strNum F = headerPart F @ dataBytes strNum (sheets F) @ poolPart F"
proof -
  have e: "toArrayBuffer (expaWriter strNum F) = headerPart F @ dataBytes strNum (sheets F)"
    by (simp add: expaWriter_def toArrayBuffer_writeExpaData toArrayBuffer_headerPhase)
  have "okWriter (expaWriter strNum F)"
    using traceInv_expaWriter [of strNum F] by (simp add: traceInv_def)
  then have o: "getCurrentOffset (expaWriter strNum F) = totalHeaderSize F + dataSize (sheets F)"
    by (simp add: okWriter_def e length_headerPart length_dataBytes)
  show ?thesis
    by (simp add: generateMbeFile_layout e o poolPart_def sortedChnkRawStrings_eq)
qed


subsection \<open>Reading the generated headers\<close>

fun typeNameOf :: "ColumnType \<Rightarrow> TypeName" where
  "typeNameOf INT' = TN_int"
| "typeNameOf STR' = TN_str"
| "typeNameOf STRID' = TN_strID"

definition columnOK :: "MbeColumn \<Rightarrow> bool" where
  "columnOK column = (typeName column = typeNameOf (type column))"

definition headerOfSheet :: "MbeSheet \<Rightarrow> SheetHeaderData" where
  "headerOfSheet sheet =
     \<lparr>headerName = name sheet, headerColumns = columns sheet,
      headerExpaAreaSizePerRow = rowWidth (columns sheet), expaRowCount = length (rows sheet),
      sheetExpaDataStartOffset = None\<rparr>"

lemma readColumns_generated:
  assumes "bytesAt B off (typeTagBytes (map type cols))"
    and "list_all columnOK cols" and "n = j + length cols"
  shows "readColumns B nm n j off acc = Inr (acc @ cols, off + 4 * length cols)"
  using assms
proof (induction cols arbitrary: j off acc)
  case Nil
  then show ?case by (subst readColumns.simps) simp
next
  case (Cons col cols)
  from Cons.prems(1) have h: "bytesAt B off (u32le (columnTypeValue (type col)))"
    and t: "bytesAt B (off + 4) (typeTagBytes (map type cols))"
    by (simp_all add: bytesAt_append typeTagBytes_Cons)
  have v: "columnTypeValue (type col) < 4294967296"
    by (cases "type col") simp_all
  have g: "getUint32 B off = Inr (columnTypeValue (type col))"
    using h v by (rule getUint32_u32le)
  from Cons.prems(2) have oks: "list_all columnOK cols" and "columnOK col"
    by simp_all
  then have ok: "typeName col = typeNameOf (type col)"
    by (simp add: columnOK_def)
  have n: "n = Suc j + length cols" "j < n"
    using Cons.prems(3) by simp_all
  note IH = Cons.IH [OF t oks n(1)]
  have col: "\<lparr>type = type col, typeName = typeName col\<rparr> = col"
    by simp
  show ?case
  proof (cases "type col")
    case INT'
    with ok col have c: "\<lparr>type = INT', typeName = TN_int\<rparr> = col" by simp
    show ?thesis
      using n(2) by (subst readColumns.simps) (simp add: g INT' c IH)
  next
    case STR'
    with ok col have c: "\<lparr>type = STR', typeName = TN_str\<rparr> = col" by simp
    show ?thesis
      using n(2) by (subst readColumns.simps) (simp add: g STR' c IH)
  next
    case STRID'
    with ok col have c: "\<lparr>type = STRID', typeName = TN_strID\<rparr> = col" by simp
    show ?thesis
      using n(2) by (subst readColumns.simps) (simp add: g STRID' c IH)
  qed
qed

text \<open>A string the parser reads back as it was written: scalar values only, none of them
  U+0000.\<close>

definition okString :: "jsstring \<Rightarrow> bool" where
  "okString s = list_all (\<lambda>cp. isScalar cp \<and> cp \<noteq> 0) s"

lemma okString_decode: "okString s \<Longrightarrow> textDecoder_decode (textEncoder_encode s) = s"
  by (rule decode_encode) (simp add: okString_def list_all_iff)

lemma okString_no_nul: "okString s \<Longrightarrow> 0 \<notin> set (textEncoder_encode s)"
  by (rule encode_no_nul) (auto simp: okString_def list_all_iff)

definition sheetHeaderOK :: "MbeSheet \<Rightarrow> bool" where
  "sheetHeaderOK sheet =
     (okString (name sheet) \<and> list_all columnOK (columns sheet)
      \<and> length (rows sheet) < 4294967296)"

lemma rowWidth_le: "rowWidth cols \<le> 8 * length cols"
  by (induction cols) (simp_all add: rowWidth_def cellWidth_def)

lemma readHeaders_generated:
  assumes "bytesAt B off (headersBytes off (map structureInfoOf ss))"
    and "list_all sheetHeaderOK ss" and "n = i + length ss" and "length B < 2147483648"
  shows "readHeaders B n i off acc ws =
           Inr (acc @ map headerOfSheet ss,
                off + length (headersBytes off (map structureInfoOf ss)), ws)"
  using assms(1,2,3)
proof (induction ss arbitrary: i off acc ws)
  case Nil
  then show ?case by (subst readHeaders.simps) simp
next
  case (Cons s ss)
  let ?enc = "textEncoder_encode (name s)"
  let ?L = "length ?enc"
  let ?P = "paddingLoop (off + 4) ?L 2"
  let ?N = "?P - ?L"
  let ?types = "typeTagBytes (map type (columns s))"
  have P: "?P = ?L + ?N" "2 \<le> ?N"
    using paddingLoop_ge [of ?L "off + 4"] by simp_all
  have hs: "headerSize off (structureInfoOf s) = 4 + ?P + 4 + 4 * length (columns s) + 8"
    by (simp add: headerSize_def)
  from Cons.prems(1)
  have b1: "bytesAt B off (u32le ?P)"
    and b2: "bytesAt B (off + 4) (?enc @ replicate ?N 0)"
    and b3: "bytesAt B (off + 4 + ?P) (u32le (length (columns s)))"
    and b4: "bytesAt B (off + 4 + ?P + 4) ?types"
    and b5: "bytesAt B (off + 4 + ?P + 4 + 4 * length (columns s)) (u32le (rowWidth (columns s)))"
    and b6: "bytesAt B (off + 4 + ?P + 4 + 4 * length (columns s) + 4) (u32le (length (rows s)))"
    and b7: "bytesAt B (off + headerSize off (structureInfoOf s))
               (headersBytes (off + headerSize off (structureInfoOf s)) (map structureInfoOf ss))"
    using P(1) by (simp_all add: headerBytes_def bytesAt_append hs add.assoc)
  from Cons.prems(2) have oks: "list_all sheetHeaderOK ss" and "sheetHeaderOK s"
    by simp_all
  then have ok: "okString (name s)" "list_all columnOK (columns s)"
    "length (rows s) < 4294967296"
    by (simp_all add: sheetHeaderOK_def)
  have lim: "?P < 4294967296" "length (columns s) < 4294967296" "rowWidth (columns s) < 4294967296"
    using bytesAt_length [OF b2] bytesAt_length [OF b4] P(1) assms(4) rowWidth_le [of "columns s"]
    by simp_all
  have g1: "getUint32 B off = Inr ?P"
    using b1 lim(1) by (rule getUint32_u32le)
  have rs: "readString B (off + 4) ?P = (name s, [])"
    using readString_padded [OF b2 _ okString_no_nul [OF ok(1)]] P okString_decode [OF ok(1)]
    by simp
  have g3: "getUint32 B (off + 4 + ?P) = Inr (length (columns s))"
    using b3 lim(2) by (rule getUint32_u32le)
  have rc: "readColumns B (name s) (length (columns s)) 0 (off + 4 + ?P + 4) []
      = Inr (columns s, off + 4 + ?P + 4 + 4 * length (columns s))"
    using readColumns_generated [OF b4 ok(2), of "length (columns s)" 0 "name s" "[]"] by simp
  have g5: "getUint32 B (off + 4 + ?P + 4 + 4 * length (columns s)) = Inr (rowWidth (columns s))"
    using b5 lim(3) by (rule getUint32_u32le)
  have g6: "getUint32 B (off + 4 + ?P + 4 + 4 * length (columns s) + 4) = Inr (length (rows s))"
    using b6 ok(3) by (rule getUint32_u32le)
  have n: "i < n" "n = (i + 1) + length ss"
    using Cons.prems(3) by simp_all
  have next_off: "off + 4 + ?P + 4 + 4 * length (columns s) + 8 = off + headerSize off (structureInfoOf s)"
    by (simp add: hs)
  note IH = Cons.IH [OF b7 oks n(2)]
  show ?case
    apply (subst readHeaders.simps)
    apply (simp only: n(1) if_True g1 sum.case Let_def rs fst_conv snd_conv g3 rc prod.case g5 g6
        next_off IH)
    apply (simp add: headerOfSheet_def length_headerBytes)
    done
qed


subsection \<open>The string cells and their offsets\<close>

text \<open>All cells under STR and STRID columns with their offsets and texts, empty texts
  included, in the order in which the generator visits them.\<close>

fun stringCellsRow :: "MbeColumn list \<Rightarrow> cell list \<Rightarrow> nat \<Rightarrow> nat \<Rightarrow> (nat \<times> jsstring) list" where
  "stringCellsRow [] cs c off = []"
| "stringCellsRow (column # cols) cs c off =
     (if type column = STR' \<or> type column = STRID' then [(off, jsString (cellAt cs c))] else [])
     @ stringCellsRow cols cs (Suc c) (off + cellWidth column)"

fun stringCellsRows :: "MbeColumn list \<Rightarrow> nat \<Rightarrow> nat \<Rightarrow> MbeRow list \<Rightarrow> nat
    \<Rightarrow> (nat \<times> jsstring) list" where
  "stringCellsRows cols start stride [] r = []"
| "stringCellsRows cols start stride (row # rs) r =
     stringCellsRow cols (cells row) 0 (start + r * stride)
     @ stringCellsRows cols start stride rs (Suc r)"

fun stringCellsSheets :: "MbeSheet list \<Rightarrow> nat \<Rightarrow> (nat \<times> jsstring) list" where
  "stringCellsSheets [] start = []"
| "stringCellsSheets (sheet # ss) start =
     stringCellsRows (columns sheet) start (rowWidth (columns sheet)) (rows sheet) 0
     @ stringCellsSheets ss (start + rowWidth (columns sheet) * length (rows sheet))"

definition entryOf :: "nat \<times> jsstring \<Rightarrow> ChnkRawString" where
  "entryOf p = \<lparr>targetExpaAbsoluteFileOffset = fst p, encodedBytes = textEncoder_encode (snd p)\<rparr>"

definition nonEmptyText :: "nat \<times> jsstring \<Rightarrow> bool" where
  "nonEmptyText p = (snd p \<noteq> [])"

lemma collectRow_stringCells:
  "collectRow cols cs c off [] = map entryOf (filter nonEmptyText (stringCellsRow cols cs c off))"
  by (induction cols arbitrary: c off) (simp_all add: collectRow_Cons entryOf_def nonEmptyText_def)

lemma collectRows_stringCells:
  "collectRows cols start stride rs r []
     = map entryOf (filter nonEmptyText (stringCellsRows cols start stride rs r))"
  by (induction rs arbitrary: r) (simp_all add: collectRows_Cons collectRow_stringCells)

lemma collectSheets_stringCells:
  "collectSheets ss start [] = map entryOf (filter nonEmptyText (stringCellsSheets ss start))"
  by (induction ss arbitrary: start) (simp_all add: collectSheets_Cons collectRows_stringCells)

lemma stringCellsRow_bounds:
  "p \<in> set (stringCellsRow cols cs c off) \<Longrightarrow> off \<le> fst p \<and> fst p + 8 \<le> off + rowWidth cols"
proof (induction cols arbitrary: c off)
  case Nil
  then show ?case by simp
next
  case (Cons col cols)
  from Cons.prems consider
    (here) "type col = STR' \<or> type col = STRID'" "p = (off, jsString (cellAt cs c))"
    | (later) "p \<in> set (stringCellsRow cols cs (Suc c) (off + cellWidth col))"
    by (auto split: if_splits)
  then show ?case
  proof cases
    case here
    then show ?thesis by (auto simp: rowWidth_def cellWidth_def)
  next
    case later
    from Cons.IH [OF later] show ?thesis by (simp add: rowWidth_def)
  qed
qed

lemma stringCellsRow_sorted: "sorted_wrt (<) (map fst (stringCellsRow cols cs c off))"
proof (induction cols arbitrary: c off)
  case Nil
  then show ?case by simp
next
  case (Cons col cols)
  have "off < fst p" if "p \<in> set (stringCellsRow cols cs (Suc c) (off + cellWidth col))" for p
    using stringCellsRow_bounds [OF that] by (simp add: cellWidth_def split: if_splits)
  then show ?case
    using Cons.IH [of "Suc c" "off + cellWidth col"] by (auto simp: sorted_wrt_append)
qed

lemma stringCellsRows_bounds:
  "p \<in> set (stringCellsRows cols start (rowWidth cols) rs r) \<Longrightarrow>
   start + r * rowWidth cols \<le> fst p
   \<and> fst p + 8 \<le> start + (r + length rs) * rowWidth cols"
proof (induction rs arbitrary: r)
  case Nil
  then show ?case by simp
next
  case (Cons row rs)
  from Cons.prems consider
    (here) "p \<in> set (stringCellsRow cols (cells row) 0 (start + r * rowWidth cols))"
    | (later) "p \<in> set (stringCellsRows cols start (rowWidth cols) rs (Suc r))"
    by auto
  then show ?case
  proof cases
    case here
    from stringCellsRow_bounds [OF here] show ?thesis
      by (simp add: algebra_simps)
  next
    case later
    from Cons.IH [OF later] show ?thesis
      by (simp add: algebra_simps)
  qed
qed

lemma stringCellsRows_sorted:
  "sorted_wrt (<) (map fst (stringCellsRows cols start (rowWidth cols) rs r))"
proof (induction rs arbitrary: r)
  case Nil
  then show ?case by simp
next
  case (Cons row rs)
  have "fst p < fst q"
    if "p \<in> set (stringCellsRow cols (cells row) 0 (start + r * rowWidth cols))"
      and "q \<in> set (stringCellsRows cols start (rowWidth cols) rs (Suc r))" for p q
    using stringCellsRow_bounds [OF that(1)] stringCellsRows_bounds [OF that(2)] by simp
  then show ?case
    using Cons.IH [of "Suc r"] stringCellsRow_sorted [of cols "cells row" 0 "start + r * rowWidth cols"]
    by (auto simp: sorted_wrt_append)
qed

lemma stringCellsSheets_bounds:
  "p \<in> set (stringCellsSheets ss start) \<Longrightarrow>
   start \<le> fst p \<and> fst p + 8 \<le> start + dataSize ss"
proof (induction ss arbitrary: start)
  case Nil
  then show ?case by simp
next
  case (Cons s ss)
  from Cons.prems consider
    (here) "p \<in> set (stringCellsRows (columns s) start (rowWidth (columns s)) (rows s) 0)"
    | (later) "p \<in> set (stringCellsSheets ss (start + rowWidth (columns s) * length (rows s)))"
    by auto
  then show ?case
  proof cases
    case here
    from stringCellsRows_bounds [OF here] show ?thesis
      by (simp add: dataSize_def algebra_simps)
  next
    case later
    from Cons.IH [OF later] show ?thesis
      by (simp add: dataSize_def algebra_simps)
  qed
qed

lemma stringCellsSheets_sorted: "sorted_wrt (<) (map fst (stringCellsSheets ss start))"
proof (induction ss arbitrary: start)
  case Nil
  then show ?case by simp
next
  case (Cons s ss)
  have "fst p < fst q"
    if "p \<in> set (stringCellsRows (columns s) start (rowWidth (columns s)) (rows s) 0)"
      and "q \<in> set (stringCellsSheets ss (start + rowWidth (columns s) * length (rows s)))"
    for p q
    using stringCellsRows_bounds [OF that(1)] stringCellsSheets_bounds [OF that(2)]
    by (simp add: algebra_simps)
  then show ?case
    using Cons.IH [of "start + rowWidth (columns s) * length (rows s)"]
      stringCellsRows_sorted [of "columns s" start "rows s" 0]
    by (auto simp: sorted_wrt_append)
qed


subsection \<open>The map built from the generated pool\<close>

fun poolTexts :: "ChnkRawString list \<Rightarrow> (nat \<Rightarrow> jsstring option) \<Rightarrow> (nat \<Rightarrow> jsstring option)" where
  "poolTexts [] t = t"
| "poolTexts (e # es) t =
     poolTexts es (t(targetExpaAbsoluteFileOffset e \<mapsto> textDecoder_decode (encodedBytes e)))"

lemma poolTexts_notin:
  "k \<notin> targetExpaAbsoluteFileOffset ` set es \<Longrightarrow> poolTexts es t k = t k"
  by (induction es arbitrary: t) simp_all

lemma poolTexts_in:
  "distinct (map targetExpaAbsoluteFileOffset es) \<Longrightarrow> e \<in> set es \<Longrightarrow>
   poolTexts es t (targetExpaAbsoluteFileOffset e) = Some (textDecoder_decode (encodedBytes e))"
proof (induction es arbitrary: t)
  case Nil
  then show ?case by simp
next
  case (Cons x es)
  show ?case
  proof (cases "e = x")
    case True
    with Cons.prems(1) show ?thesis
      by (simp add: poolTexts_notin)
  next
    case False
    with Cons.prems have "e \<in> set es" "distinct (map targetExpaAbsoluteFileOffset es)"
      by simp_all
    from Cons.IH [OF this(2,1)] show ?thesis by simp
  qed
qed

lemma pool_lookup:
  assumes "p \<in> set (stringCellsSheets ss start)" and "okString (snd p)"
  shows "poolTexts (collectSheets ss start []) Map.empty (fst p)
           = (if snd p = [] then None else Some (snd p))"
proof -
  let ?All = "stringCellsSheets ss start"
  let ?E = "map entryOf (filter nonEmptyText ?All)"
  have d: "distinct (map fst ?All)"
    using stringCellsSheets_sorted [of ss start] strict_sorted_iff by blast
  have t: "map targetExpaAbsoluteFileOffset ?E = map fst (filter nonEmptyText ?All)"
    by (simp add: entryOf_def comp_def)
  have dE: "distinct (map targetExpaAbsoluteFileOffset ?E)"
    unfolding t using d by (rule distinct_map_filter)
  show ?thesis
  proof (cases "snd p = []")
    case True
    have "fst p \<notin> targetExpaAbsoluteFileOffset ` set ?E"
    proof
      assume "fst p \<in> targetExpaAbsoluteFileOffset ` set ?E"
      then obtain q where q: "q \<in> set ?All" "nonEmptyText q" "fst q = fst p"
        by (auto simp: entryOf_def)
      from d q(1,3) assms(1) have "q = p"
        by (meson distinct_map inj_onD)
      with q(2) True show False
        by (simp add: nonEmptyText_def)
    qed
    then show ?thesis
      using True by (simp add: collectSheets_stringCells poolTexts_notin)
  next
    case False
    then have "entryOf p \<in> set ?E"
      using assms(1) by (simp add: nonEmptyText_def)
    from poolTexts_in [OF dE this, of Map.empty]
    show ?thesis
      using False okString_decode [OF assms(2)]
      by (simp add: collectSheets_stringCells entryOf_def)
  qed
qed

lemma parseChnkEntries_generated:
  assumes "bytesAt B off (poolBytes off es)" and "n = i + length es"
    and "\<And>e. e \<in> set es \<Longrightarrow> targetExpaAbsoluteFileOffset e < 4294967296
            \<and> 0 \<notin> set (encodedBytes e)"
    and "length B < 4294967296"
  shows "\<exists>m'. parseChnkEntries B n i off m ws = (m', ws)
           \<and> map_option fst \<circ> m' = poolTexts es (map_option fst \<circ> m)"
  using assms(1,2,3)
proof (induction es arbitrary: i off m ws)
  case Nil
  then show ?case by (subst parseChnkEntries.simps) simp
next
  case (Cons e es)
  let ?L = "length (encodedBytes e)"
  let ?P = "paddingLoop (off + 8) ?L 2"
  let ?N = "?P - ?L"
  have P: "?P = ?L + ?N" "2 \<le> ?N"
    using paddingLoop_ge [of ?L "off + 8"] by simp_all
  from Cons.prems(1)
  have b1: "bytesAt B off (u32le (targetExpaAbsoluteFileOffset e))"
    and b2: "bytesAt B (off + 4) (u32le ?P)"
    and b3: "bytesAt B (off + 8) (encodedBytes e @ replicate ?N 0)"
    and b4: "bytesAt B (off + length (entryBytes off e)) (poolBytes (off + length (entryBytes off e)) es)"
    using P(1) by (simp_all add: entryBytes_def bytesAt_append add.assoc)
  from Cons.prems(3) [of e] have e: "targetExpaAbsoluteFileOffset e < 4294967296"
    "0 \<notin> set (encodedBytes e)"
    by simp_all
  have lim: "?P < 4294967296" "off + 8 + ?P \<le> length B"
    using bytesAt_length [OF b3] P(1) assms(4) by simp_all
  have u1: "uint32At B off = targetExpaAbsoluteFileOffset e"
    using uint32At_u32le [OF b1] e(1) by simp
  have u2: "uint32At B (off + 4) = ?P"
    using uint32At_u32le [OF b2] lim(1) by simp
  have rs: "readString B (off + 8) ?P = (textDecoder_decode (encodedBytes e), [])"
    using readString_padded [OF b3 _ e(2)] P by simp
  have n: "i < n" "n = (i + 1) + length es"
    using Cons.prems(2) by simp_all
  have len: "off + (8 + ?P) = off + length (entryBytes off e)"
    by (simp add: length_entryBytes)
  let ?m1 = "m(targetExpaAbsoluteFileOffset e \<mapsto> (textDecoder_decode (encodedBytes e), ?P))"
  have es: "targetExpaAbsoluteFileOffset e' < 4294967296 \<and> 0 \<notin> set (encodedBytes e')"
    if "e' \<in> set es" for e'
    using Cons.prems(3) [of e'] that by simp
  have "\<exists>m'. parseChnkEntries B n (i + 1) (off + length (entryBytes off e)) ?m1 ws = (m', ws)
           \<and> map_option fst \<circ> m' = poolTexts es (map_option fst \<circ> ?m1)"
    by (rule Cons.IH [OF b4 n(2) es])
  then obtain m' where m': "parseChnkEntries B n (i + 1) (off + length (entryBytes off e)) ?m1 ws = (m', ws)"
    "map_option fst \<circ> m' = poolTexts es (map_option fst \<circ> ?m1)"
    by blast
  have step: "parseChnkEntries B n i off m ws
      = parseChnkEntries B n (i + 1) (off + length (entryBytes off e)) ?m1 ws"
    apply (subst parseChnkEntries.simps)
    using lim(2) n(1)
    apply (simp only: u1 u2 Let_def rs fst_conv snd_conv len append_Nil2)
    apply simp
    done
  have mo: "map_option fst \<circ> ?m1
      = (map_option fst \<circ> m)(targetExpaAbsoluteFileOffset e \<mapsto> textDecoder_decode (encodedBytes e))"
    by (rule ext) simp
  show ?case
    unfolding step poolTexts.simps mo [symmetric] using m' by blast
qed



subsection \<open>Where the generator puts a cell\<close>

lemma bytesAt_trans:
  assumes "bytesAt X a Y" and "bytesAt Y b Z"
  shows "bytesAt X (a + b) Z"
proof -
  from assms have l: "a + length Y \<le> length X" "b + length Z \<le> length Y"
    and Y: "take (length Y) (drop a X) = Y" and Z: "take (length Z) (drop b Y) = Z"
    by (simp_all add: bytesAt_def)
  have "Z = take (length Z) (drop b (take (length Y) (drop a X)))"
    using Y Z by simp
  also have "\<dots> = take (length Z) (take (length Y - b) (drop b (drop a X)))"
    by (simp add: drop_take)
  also have "\<dots> = take (length Z) (drop (a + b) X)"
    using l(2) by (simp add: min_def add.commute)
  finally show ?thesis
    using l by (simp add: bytesAt_def)
qed

lemma bytesAt_concat_nth:
  assumes "k < length xs"
  shows "bytesAt (concat (map f xs)) (length (concat (map f (take k xs)))) (f (xs ! k))"
proof -
  have "xs = take k xs @ xs ! k # drop (Suc k) xs"
    using assms by (rule id_take_nth_drop)
  then have "concat (map f xs)
      = concat (map f (take k xs)) @ (f (xs ! k) @ concat (map f (drop (Suc k) xs)))"
    by (metis concat.simps(2) concat_append list.simps(9) map_append)
  moreover have "bytesAt (concat (map f (take k xs)) @ (f (xs ! k) @ concat (map f (drop (Suc k) xs))))
      (length (concat (map f (take k xs)))) (f (xs ! k) @ concat (map f (drop (Suc k) xs)))"
    by (rule bytesAt_prefix)
  ultimately show ?thesis
    by (simp add: bytesAt_append)
qed

lemma length_rows_bytes:
  "length (concat (map (\<lambda>row. rowBytes strNum cols (cells row) 0) rs)) = length rs * rowWidth cols"
  by (induction rs) (simp_all add: length_rowBytes)

lemma length_cells_bytes:
  "length (concat (map (cellBytes strNum cs) (zip cols ns))) = rowWidth (take (length ns) cols)"
proof (induction cols arbitrary: ns)
  case Nil
  then show ?case by (simp add: rowWidth_def)
next
  case (Cons col cols)
  show ?case
  proof (cases ns)
    case Nil
    then show ?thesis by (simp add: rowWidth_def)
  next
    case (Cons n ns')
    then show ?thesis
      using Cons.IH [of ns'] by (simp add: length_cellBytes rowWidth_def)
  qed
qed

lemma cell_in_row:
  assumes "c < length cols"
  shows "bytesAt (rowBytes strNum cols cs 0) (rowWidth (take c cols)) (cellBytes strNum cs (cols ! c, c))"
proof -
  let ?zs = "zip cols [0..<0 + length cols]"
  from assms have c: "c < length ?zs" by simp
  have n: "?zs ! c = (cols ! c, c)"
    using assms by simp
  have t: "take c ?zs = zip (take c cols) [0..<c]"
    using assms by (simp add: take_zip)
  have "length (concat (map (cellBytes strNum cs) (take c ?zs))) = rowWidth (take c cols)"
    unfolding t using length_cells_bytes [of strNum cs "take c cols" "[0..<c]"] by simp
  with bytesAt_concat_nth [OF c, of "cellBytes strNum cs"] n show ?thesis
    by (simp add: rowBytes_def)
qed

lemma cell_in_sheet:
  assumes "r < length (rows sheet)" and "c < length (columns sheet)"
  shows "bytesAt (sheetBytes strNum sheet)
           (r * rowWidth (columns sheet) + rowWidth (take c (columns sheet)))
           (cellBytes strNum (cells (rows sheet ! r)) (columns sheet ! c, c))"
proof -
  have "bytesAt (sheetBytes strNum sheet) (r * rowWidth (columns sheet))
          (rowBytes strNum (columns sheet) (cells (rows sheet ! r)) 0)"
    using bytesAt_concat_nth [OF assms(1), of "\<lambda>row. rowBytes strNum (columns sheet) (cells row) 0"]
      assms(1)
    by (simp add: sheetBytes_def length_rows_bytes)
  then show ?thesis
    using cell_in_row [OF assms(2)] by (rule bytesAt_trans)
qed

lemma cell_in_data:
  assumes "s < length ss" and "r < length (rows (ss ! s))" and "c < length (columns (ss ! s))"
  shows "bytesAt (dataBytes strNum ss)
           (dataSize (take s ss) + (r * rowWidth (columns (ss ! s))
              + rowWidth (take c (columns (ss ! s)))))
           (cellBytes strNum (cells (rows (ss ! s) ! r)) (columns (ss ! s) ! c, c))"
proof -
  have "length (concat (map (sheetBytes strNum) (take s ss))) = dataSize (take s ss)"
    using length_dataBytes [of strNum "take s ss"] by (simp add: dataBytes_def)
  with bytesAt_concat_nth [OF assms(1), of "sheetBytes strNum"]
  have "bytesAt (dataBytes strNum ss) (dataSize (take s ss)) (sheetBytes strNum (ss ! s))"
    by (simp add: dataBytes_def)
  then show ?thesis
    using cell_in_sheet [OF assms(2,3)] by (rule bytesAt_trans)
qed

subsection \<open>Where the generator notes a string cell\<close>

lemma stringCellsRow_nth:
  assumes "c < length cols" and "type (cols ! c) \<noteq> INT'"
  shows "(off + rowWidth (take c cols), jsString (cellAt cs (c0 + c)))
           \<in> set (stringCellsRow cols cs c0 off)"
  using assms
proof (induction cols arbitrary: c c0 off)
  case Nil
  then show ?case by simp
next
  case (Cons col cols)
  show ?case
  proof (cases c)
    case 0
    with Cons.prems(2) type_cases [of col] show ?thesis
      by (auto simp: rowWidth_def)
  next
    case (Suc c')
    with Cons.prems have "c' < length cols" "type (cols ! c') \<noteq> INT'"
      by simp_all
    from Cons.IH [OF this, of "off + cellWidth col" "Suc c0"] Suc show ?thesis
      by (simp add: rowWidth_Cons add.assoc)
  qed
qed

lemma stringCellsRows_nth:
  assumes "r < length rs"
    and "p \<in> set (stringCellsRow cols (cells (rs ! r)) 0 (start + (r0 + r) * stride))"
  shows "p \<in> set (stringCellsRows cols start stride rs r0)"
  using assms
proof (induction rs arbitrary: r r0)
  case Nil
  then show ?case by simp
next
  case (Cons row rs)
  show ?case
  proof (cases r)
    case 0
    with Cons.prems(2) show ?thesis by simp
  next
    case (Suc r')
    with Cons.prems have "r' < length rs"
      "p \<in> set (stringCellsRow cols (cells (rs ! r')) 0 (start + (Suc r0 + r') * stride))"
      by simp_all
    from Cons.IH [OF this] show ?thesis by simp
  qed
qed

lemma dataSize_Cons:
  "dataSize (sheet # ss) = rowWidth (columns sheet) * length (rows sheet) + dataSize ss"
  by (simp add: dataSize_def)

lemma stringCellsSheets_nth:
  assumes "s < length ss"
    and "p \<in> set (stringCellsRows (columns (ss ! s)) (start + dataSize (take s ss))
                    (rowWidth (columns (ss ! s))) (rows (ss ! s)) 0)"
  shows "p \<in> set (stringCellsSheets ss start)"
  using assms
proof (induction ss arbitrary: s start)
  case Nil
  then show ?case by simp
next
  case (Cons sheet ss)
  show ?case
  proof (cases s)
    case 0
    with Cons.prems(2) show ?thesis by (simp add: dataSize_def)
  next
    case (Suc s')
    with Cons.prems have "s' < length ss"
      "p \<in> set (stringCellsRows (columns (ss ! s'))
                  ((start + rowWidth (columns sheet) * length (rows sheet)) + dataSize (take s' ss))
                  (rowWidth (columns (ss ! s'))) (rows (ss ! s')) 0)"
      by (simp_all add: dataSize_Cons add.assoc)
    from Cons.IH [OF this] show ?thesis by simp
  qed
qed

lemma string_cell_noted:
  assumes "s < length ss" and "r < length (rows (ss ! s))" and "c < length (columns (ss ! s))"
    and "type (columns (ss ! s) ! c) \<noteq> INT'"
  shows "(start + dataSize (take s ss) + r * rowWidth (columns (ss ! s))
            + rowWidth (take c (columns (ss ! s))),
          jsString (cellAt (cells (rows (ss ! s) ! r)) c))
         \<in> set (stringCellsSheets ss start)"
proof -
  let ?cols = "columns (ss ! s)"
  have "(start + dataSize (take s ss) + (0 + r) * rowWidth ?cols + rowWidth (take c ?cols),
         jsString (cellAt (cells (rows (ss ! s) ! r)) (0 + c)))
        \<in> set (stringCellsRow ?cols (cells (rows (ss ! s) ! r)) 0
                 (start + dataSize (take s ss) + (0 + r) * rowWidth ?cols))"
    by (rule stringCellsRow_nth [OF assms(3,4)])
  from stringCellsRows_nth [OF assms(2) this] have
    "(start + dataSize (take s ss) + (0 + r) * rowWidth ?cols + rowWidth (take c ?cols),
         jsString (cellAt (cells (rows (ss ! s) ! r)) (0 + c)))
       \<in> set (stringCellsRows ?cols (start + dataSize (take s ss)) (rowWidth ?cols) (rows (ss ! s)) 0)" .
  from stringCellsSheets_nth [OF assms(1) this] show ?thesis by simp
qed


subsection \<open>Files that are read back as they were written\<close>

text \<open>
  A cell that survives the round trip: an integer of the 32-bit signed range under an INT
  column, or a string of scalar values other than U+0000 under a STR or STRID column.
\<close>

definition cellOK :: "MbeColumn \<Rightarrow> cell \<Rightarrow> bool" where
  "cellOK column v =
     (case v of
        Num n \<Rightarrow> type column = INT' \<and> - 2147483648 \<le> n \<and> n < 2147483648
      | Str t \<Rightarrow> type column \<noteq> INT' \<and> okString t)"

definition sheetOK :: "MbeSheet \<Rightarrow> bool" where
  "sheetOK sheet =
     (sheetHeaderOK sheet
      \<and> list_all (\<lambda>row. list_all2 cellOK (columns sheet) (cells row)) (rows sheet))"

lemma cellOK_nth:
  assumes "list_all2 cellOK cols cs" and "c < length cols"
  shows "cellAt cs c = Some (cs ! c)" and "cellOK (cols ! c) (cs ! c)"
  using assms by (simp_all add: cellAt_def list_all2_lengthD list_all2_nthD)

lemma stringCellsRow_ok:
  assumes "list_all2 cellOK cols (drop c0 cs)" and "p \<in> set (stringCellsRow cols cs c0 off)"
  shows "okString (snd p)"
  using assms
proof (induction cols arbitrary: c0 off)
  case Nil
  then show ?case by simp
next
  case (Cons col cols)
  from Cons.prems(1) obtain v vs where d: "drop c0 cs = v # vs"
    and v: "cellOK col v" and vs: "list_all2 cellOK cols vs"
    by (auto simp: list_all2_Cons1)
  from d have c0: "c0 < length cs"
    by (metis drop_all list.distinct(1) not_le_imp_less)
  with d have e: "cs ! c0 = v" "drop (Suc c0) cs = vs"
    by (simp_all add: Cons_nth_drop_Suc [symmetric])
  from Cons.prems(2) consider
    (here) "type col = STR' \<or> type col = STRID'" "p = (off, jsString (cellAt cs c0))"
    | (later) "p \<in> set (stringCellsRow cols cs (Suc c0) (off + cellWidth col))"
    by (auto split: if_splits)
  then show ?case
  proof cases
    case here
    with v c0 e(1) show ?thesis
      by (cases v) (auto simp: cellOK_def cellAt_def jsString_def)
  next
    case later
    from Cons.IH [OF _ later] vs e(2) show ?thesis by simp
  qed
qed

lemma stringCellsRows_ok:
  assumes "list_all (\<lambda>row. list_all2 cellOK cols (cells row)) rs"
    and "p \<in> set (stringCellsRows cols start stride rs r)"
  shows "okString (snd p)"
  using assms
proof (induction rs arbitrary: r)
  case Nil
  then show ?case by simp
next
  case (Cons row rs)
  from Cons.prems(2) consider
    (here) "p \<in> set (stringCellsRow cols (cells row) 0 (start + r * stride))"
    | (later) "p \<in> set (stringCellsRows cols start stride rs (Suc r))"
    by auto
  then show ?case
  proof cases
    case here
    from Cons.prems(1) have "list_all2 cellOK cols (drop 0 (cells row))" by simp
    from stringCellsRow_ok [OF this here] show ?thesis .
  next
    case later
    from Cons.IH [OF _ later] Cons.prems(1) show ?thesis by simp
  qed
qed

lemma stringCellsSheets_ok:
  assumes "list_all sheetOK ss" and "p \<in> set (stringCellsSheets ss start)"
  shows "okString (snd p)"
  using assms
proof (induction ss arbitrary: start)
  case Nil
  then show ?case by simp
next
  case (Cons sheet ss)
  from Cons.prems(2) consider
    (here) "p \<in> set (stringCellsRows (columns sheet) start (rowWidth (columns sheet)) (rows sheet) 0)"
    | (later) "p \<in> set (stringCellsSheets ss (start + rowWidth (columns sheet) * length (rows sheet)))"
    by auto
  then show ?case
  proof cases
    case here
    from Cons.prems(1) have "list_all (\<lambda>row. list_all2 cellOK (columns sheet) (cells row)) (rows sheet)"
      by (simp add: sheetOK_def)
    from stringCellsRows_ok [OF this here] show ?thesis .
  next
    case later
    from Cons.IH [OF _ later] Cons.prems(1) show ?thesis by simp
  qed
qed

subsection \<open>Reading the generated pool\<close>

lemma length_poolBytes_ge: "length es \<le> length (poolBytes off es)"
proof (induction es arbitrary: off)
  case Nil
  then show ?case by simp
next
  case (Cons e es)
  from Cons [of "off + length (entryBytes off e)"] show ?case
    by (simp add: length_entryBytes)
qed

lemma length_headersBytes_ge: "length infos \<le> length (headersBytes off infos)"
proof (induction infos arbitrary: off)
  case Nil
  then show ?case by simp
next
  case (Cons info infos)
  from Cons [of "off + headerSize off info"] show ?case
    by (simp add: length_headerBytes headerSize_def)
qed

lemma findMagic_at:
  assumes "bytesAt B start ms"
  shows "findMagic B ms start = Some start"
  using assms by (subst findMagic.simps) (simp add: bytesAt_def)

lemma findMagic_end: "ms \<noteq> [] \<Longrightarrow> findMagic B ms (length B) = None"
  by (subst findMagic.simps) simp

lemma generated_pool:
  assumes "list_all sheetOK (sheets F)" and "length (generateMbeFile strNum F) < 2147483648"
  shows "\<exists>m ws. parseChnk (generateMbeFile strNum F) (totalHeaderSize F + dataSize (sheets F))
                   = Inr (m, ws)
           \<and> map_option fst \<circ> m
               = poolTexts (collectSheets (sheets F) (totalHeaderSize F) []) Map.empty"
proof -
  let ?B = "generateMbeFile strNum F"
  let ?ss = "sheets F"
  let ?off0 = "totalHeaderSize F"
  let ?start = "?off0 + dataSize ?ss"
  let ?es = "collectSheets ?ss ?off0 []"
  have es: "chnkRawStrings (headerPhase F) = ?es"
    by (simp add: headerPhase_eq)
  have B: "?B = (headerPart F @ dataBytes strNum ?ss) @ poolPart F"
    by (simp add: generateMbeFile_parts)
  have l: "length (headerPart F @ dataBytes strNum ?ss) = ?start"
    by (simp add: length_headerPart length_dataBytes)
  have clen: "length CHNK_MAGIC_BYTES = 4" "CHNK_MAGIC_BYTES \<noteq> []"
    by (simp_all add: CHNK_MAGIC_BYTES_def)
  show ?thesis
  proof (cases "?es = []")
    case True
    then have "poolPart F = []"
      by (simp add: poolPart_def es)
    with B l have "length ?B = ?start" by simp
    then have "findMagic ?B CHNK_MAGIC_BYTES ?start = None"
      using findMagic_end [OF clen(2), of ?B] by simp
    then show ?thesis
      by (simp add: parseChnk_def True)
  next
    case False
    let ?P = "CHNK_MAGIC_BYTES @ u32le (length ?es) @ poolBytes (?start + 8) ?es"
    from False have P: "poolPart F = ?P"
      by (simp add: poolPart_def es)
    have "bytesAt ((headerPart F @ dataBytes strNum ?ss) @ poolPart F)
            (length (headerPart F @ dataBytes strNum ?ss)) (poolPart F)"
      by (rule bytesAt_prefix)
    then have "bytesAt ?B ?start ?P"
      by (simp only: B P l)
    then have b1: "bytesAt ?B ?start CHNK_MAGIC_BYTES"
      and b2: "bytesAt ?B (?start + 4) (u32le (length ?es))"
      and b3: "bytesAt ?B (?start + 8) (poolBytes (?start + 8) ?es)"
      by (simp_all add: bytesAt_append clen add.assoc)
    have f: "findMagic ?B CHNK_MAGIC_BYTES ?start = Some ?start"
      using b1 by (rule findMagic_at)
    have "length ?es \<le> length ?B"
      using bytesAt_length [OF b3] length_poolBytes_ge [of ?es "?start + 8"] by simp
    with assms(2) have n: "length ?es < 4294967296" by simp
    have g: "getUint32 ?B (?start + 4) = Inr (length ?es)"
      using b2 n by (rule getUint32_u32le)
    have e: "targetExpaAbsoluteFileOffset e < 4294967296 \<and> 0 \<notin> set (encodedBytes e)"
      if "e \<in> set ?es" for e
    proof -
      from that obtain p where p: "p \<in> set (stringCellsSheets ?ss ?off0)" "e = entryOf p"
        by (auto simp: collectSheets_stringCells)
      from stringCellsSheets_bounds [OF p(1)] bytesAt_length [OF b1] assms(2)
      have "fst p < 4294967296" by simp
      moreover from stringCellsSheets_ok [OF assms(1) p(1)] have "0 \<notin> set (textEncoder_encode (snd p))"
        by (rule okString_no_nul)
      ultimately show ?thesis
        by (simp add: p(2) entryOf_def)
    qed
    from assms(2) have small: "length ?B < 4294967296" by simp
    from parseChnkEntries_generated [OF b3 _ e small, of "length ?es" 0 Map.empty "[]"]
    obtain m' where m': "parseChnkEntries ?B (length ?es) 0 (?start + 8) Map.empty [] = (m', [])"
      "map_option fst \<circ> m' = poolTexts ?es (map_option fst \<circ> Map.empty)"
      by auto
    have a: "?start + 4 + 4 = ?start + 8"
      by simp
    have "parseChnk ?B ?start = Inr (m', [])"
      by (simp only: parseChnk_def f option.case clen(1) g sum.case a m'(1))
    moreover from m'(2) have "map_option fst \<circ> m' = poolTexts ?es Map.empty"
      by (simp add: comp_def)
    ultimately show ?thesis by blast
  qed
qed


subsection \<open>Reading the generated file\<close>

lemma generated_headers:
  assumes "list_all sheetOK (sheets F)" and "length (generateMbeFile strNum F) < 2147483648"
  shows "take 4 (generateMbeFile strNum F) = EXPA_MAGIC_BYTES"
    and "8 \<le> length (generateMbeFile strNum F)"
    and "uint32At (generateMbeFile strNum F) 4 = length (sheets F)"
    and "readHeaders (generateMbeFile strNum F) (length (sheets F)) 0 8 [] []
           = Inr (map headerOfSheet (sheets F), totalHeaderSize F, [])"
proof -
  let ?B = "generateMbeFile strNum F"
  let ?ss = "sheets F"
  let ?hb = "headersBytes 8 (map structureInfoOf ?ss)"
  let ?rest = "dataBytes strNum ?ss @ poolPart F"
  have elen: "length EXPA_MAGIC_BYTES = 4"
    by (simp add: EXPA_MAGIC_BYTES_def)
  have B: "?B = EXPA_MAGIC_BYTES @ u32le (length ?ss) @ ?hb @ ?rest"
    by (simp add: generateMbeFile_parts headerPart_def)
  show "take 4 ?B = EXPA_MAGIC_BYTES"
    unfolding B using elen by simp
  show "8 \<le> length ?B"
    unfolding B using elen by simp
  have "bytesAt (EXPA_MAGIC_BYTES @ (u32le (length ?ss) @ ?hb @ ?rest)) (length EXPA_MAGIC_BYTES)
          (u32le (length ?ss) @ ?hb @ ?rest)"
    by (rule bytesAt_prefix)
  then have b: "bytesAt ?B 4 (u32le (length ?ss))" "bytesAt ?B 8 ?hb"
    unfolding B [symmetric] elen by (simp_all add: bytesAt_append)
  have "length ?ss \<le> length ?hb"
    using length_headersBytes_ge [of "map structureInfoOf ?ss" 8] by simp
  with bytesAt_length [OF b(2)] assms(2) have n: "length ?ss < 4294967296"
    by simp
  show "uint32At ?B 4 = length ?ss"
    using uint32At_u32le [OF b(1)] n by simp
  have h: "list_all sheetHeaderOK ?ss"
    using assms(1) by (simp add: list_all_iff sheetOK_def)
  have "8 + length ?hb = totalHeaderSize F"
    using length_headerPart [of F] elen by (simp add: headerPart_def)
  with readHeaders_generated [OF b(2) h _ assms(2), of "length ?ss" 0 "[]" "[]"]
  show "readHeaders ?B (length ?ss) 0 8 [] [] = Inr (map headerOfSheet ?ss, totalHeaderSize F, [])"
    by simp
qed

lemma generated_cell:
  assumes "list_all sheetOK (sheets F)" and "length (generateMbeFile strNum F) < 2147483648"
    and "map_option fst \<circ> m = poolTexts (collectSheets (sheets F) (totalHeaderSize F) []) Map.empty"
    and "s < length (sheets F)" and "r < length (rows (sheets F ! s))"
    and "c < length (columns (sheets F ! s))"
  shows "cellFromMap (generateMbeFile strNum F) m (columns (sheets F ! s) ! c)
           (totalHeaderSize F + dataSize (take s (sheets F))
              + r * rowWidth (columns (sheets F ! s)) + rowWidth (take c (columns (sheets F ! s))))
         = cells (rows (sheets F ! s) ! r) ! c"
proof -
  let ?B = "generateMbeFile strNum F"
  let ?ss = "sheets F"
  let ?sheet = "?ss ! s"
  let ?cols = "columns ?sheet"
  let ?cs = "cells (rows ?sheet ! r)"
  let ?rel = "dataSize (take s ?ss) + (r * rowWidth ?cols + rowWidth (take c ?cols))"
  let ?off = "totalHeaderSize F + dataSize (take s ?ss) + r * rowWidth ?cols + rowWidth (take c ?cols)"
  have o: "?off = totalHeaderSize F + ?rel"
    by simp
  from assms(1,4) have "sheetOK ?sheet"
    by (simp add: list_all_length)
  with assms(5) have "list_all2 cellOK ?cols ?cs"
    by (simp add: sheetOK_def list_all_length)
  note v = cellOK_nth [OF this assms(6)]
  show ?thesis
  proof (cases "?cs ! c")
    case (Num n)
    with v(2) have t: "type (?cols ! c) = INT'" and n: "- 2147483648 \<le> n" "n < 2147483648"
      by (simp_all add: cellOK_def)
    have cb: "cellBytes strNum ?cs (?cols ! c, c) = i32le n"
      by (simp add: cellBytes_def t v(1) Num jsNumber_def)
    have "bytesAt (headerPart F @ (dataBytes strNum ?ss @ poolPart F)) (length (headerPart F))
            (dataBytes strNum ?ss @ poolPart F)"
      by (rule bytesAt_prefix)
    then have "bytesAt ?B (totalHeaderSize F) (dataBytes strNum ?ss)"
      by (simp add: generateMbeFile_parts length_headerPart bytesAt_append)
    from bytesAt_trans [OF this cell_in_data [OF assms(4,5,6), of strNum]]
    have b: "bytesAt ?B ?off (i32le n)"
      unfolding cb o .
    from bytesAt_length [OF b] have "?off + 4 \<le> length ?B"
      by simp
    moreover have "int32At ?B ?off = n"
      using b n by (rule int32At_i32le)
    ultimately show ?thesis
      unfolding cellFromMap_def using t Num by simp
  next
    case (Str t)
    with v(2) have ty: "type (?cols ! c) \<noteq> INT'" and ok: "okString t"
      by (simp_all add: cellOK_def)
    have js: "jsString (cellAt ?cs c) = t"
      by (simp add: v(1) Str jsString_def)
    from string_cell_noted [OF assms(4,5,6) ty, of "totalHeaderSize F"]
    have p: "(?off, t) \<in> set (stringCellsSheets ?ss (totalHeaderSize F))"
      unfolding js .
    from pool_lookup [OF p] ok
    have "poolTexts (collectSheets ?ss (totalHeaderSize F) []) Map.empty ?off
            = (if t = [] then None else Some t)"
      by simp
    with assms(3) have "map_option fst (m ?off) = (if t = [] then None else Some t)"
      by (metis comp_apply)
    then have "(case m ?off of None \<Rightarrow> [] | Some e \<Rightarrow> fst e) = t"
      by (cases "m ?off") (auto split: if_splits)
    then show ?thesis
      unfolding cellFromMap_def using ty Str by simp
  qed
qed

lemma sum_declared_headerOfSheet:
  "sum_list (map (\<lambda>h. headerExpaAreaSizePerRow h * expaRowCount h) (map headerOfSheet ss))
     = dataSize ss"
  by (simp add: dataSize_def headerOfSheet_def comp_def)

lemma generated_round_trip:
  assumes "list_all sheetOK (sheets F)" and "length (generateMbeFile strNum F) < 2147483648"
  shows "\<exists>G ws. parseMbeFile now (generateMbeFile strNum F) = Inr (G, ws) \<and> sameContent G F"
proof -
  let ?B = "generateMbeFile strNum F"
  let ?ss = "sheets F"
  let ?off0 = "totalHeaderSize F"
  let ?hs = "map headerOfSheet ?ss"
  note g = generated_headers [OF assms]
  have st: "snd (assignStarts ?hs ?off0) = ?off0 + dataSize ?ss"
    by (simp only: snd_assignStarts sum_declared_headerOfSheet)
  from generated_pool [OF assms] obtain m wsb
    where c: "parseChnk ?B (?off0 + dataSize ?ss) = Inr (m, wsb)"
      and m: "map_option fst \<circ> m = poolTexts (collectSheets ?ss ?off0 []) Map.empty"
    by blast
  from parseMbeFile_after_headers [OF g(1,2) g(4) [folded g(3)] c [folded st], of now]
  obtain ss' wsc where p: "parseMbeFile now ?B = Inr (\<lparr>sheets = ss'\<rparr>, [] @ wsb @ wsc)"
    and r: "readSheets now ?B m 0 (fst (assignStarts ?hs ?off0)) = Inr (ss', wsc)"
    and l: "length ss' = length ?ss"
    by auto
  have "sameSheetContent (ss' ! s) (?ss ! s)" if s: "s < length ?ss" for s
  proof -
    let ?sheet = "?ss ! s"
    let ?cols = "columns ?sheet"
    let ?start = "?off0 + dataSize (take s ?ss)"
    let ?h = "(headerOfSheet ?sheet)\<lparr>sheetExpaDataStartOffset := Some ?start\<rparr>"
    have sm: "sum_list (map (\<lambda>h. headerExpaAreaSizePerRow h * expaRowCount h) (take s ?hs))
                = dataSize (take s ?ss)"
      using sum_declared_headerOfSheet [of "take s ?ss"] by (simp only: take_map)
    have a: "fst (assignStarts ?hs ?off0) ! s = ?h"
      using assignStarts_nth [of s ?hs ?off0, unfolded sm] s by simp
    from readSheets_nth [OF r, of s] s
    have f: "name (ss' ! s) = name ?sheet" "columns (ss' ! s) = ?cols"
      and rw: "rows (ss' ! s) = fst (readRows now ?B m s ?h ?start [0..<length (rows ?sheet)])"
      by (simp_all add: length_assignStarts a headerOfSheet_def)
    have lr: "length (rows (ss' ! s)) = length (rows ?sheet)"
      unfolding rw by (simp add: length_readRows)
    have "cells (rows (ss' ! s) ! r) = cells (rows ?sheet ! r)" if r: "r < length (rows ?sheet)" for r
    proof -
      let ?read = "readCells ?B m (name ?sheet) r (?start + r * rowWidth ?cols) ?cols 0 0"
      have cs: "cells (rows (ss' ! s) ! r) = fst ?read"
        unfolding rw using readRows_nth [of r "[0..<length (rows ?sheet)]" now ?B m s ?h ?start] r
        by (simp add: headerOfSheet_def)
      from assms(1) s have "sheetOK ?sheet"
        by (simp add: list_all_length)
      with r have "list_all2 cellOK ?cols (cells (rows ?sheet ! r))"
        by (simp add: sheetOK_def list_all_length)
      then have lc: "length (cells (rows ?sheet ! r)) = length ?cols"
        by (simp add: list_all2_lengthD)
      show ?thesis
        unfolding cs
      proof (rule nth_equalityI)
        show "length (fst ?read) = length (cells (rows ?sheet ! r))"
          by (simp add: length_readCells lc)
        fix c
        assume "c < length (fst ?read)"
        then have c: "c < length ?cols"
          by (simp add: length_readCells)
        have "fst ?read ! c
                = cellFromMap ?B m (?cols ! c) (?start + r * rowWidth ?cols + 0 + rowWidth (take c ?cols))"
          by (rule readCells_nth [OF c])
        also have "\<dots> = cells (rows ?sheet ! r) ! c"
          using generated_cell [OF assms m s r c] by simp
        finally show "fst ?read ! c = cells (rows ?sheet ! r) ! c" .
      qed
    qed
    then have "map cells (rows (ss' ! s)) = map cells (rows ?sheet)"
      using lr by (intro nth_equalityI) simp_all
    with f show ?thesis
      by (simp add: sameSheetContent_def)
  qed
  with l have "sameContent \<lparr>sheets = ss'\<rparr> F"
    by (simp add: sameContent_def list_all2_conv_all_nth)
  with p show ?thesis by blast
qed



subsection \<open>The round trip\<close>

text \<open>
  The equivalence of section 8 of the specification: it ignores the identity tokens of the
  rows and the field \<^verbatim>\<open>parsedExpaAreaSizePerRow\<close>, and it does not tell STR from STRID.
\<close>

definition sameKind :: "MbeColumn \<Rightarrow> MbeColumn \<Rightarrow> bool" where
  "sameKind a b = ((type a = INT') = (type b = INT'))"

definition equivalentSheet :: "MbeSheet \<Rightarrow> MbeSheet \<Rightarrow> bool" where
  "equivalentSheet s t =
     (name s = name t \<and> list_all2 sameKind (columns s) (columns t)
      \<and> map cells (rows s) = map cells (rows t))"

definition equivalentFile :: "MbeFile \<Rightarrow> MbeFile \<Rightarrow> bool" where
  "equivalentFile G F = list_all2 equivalentSheet (sheets G) (sheets F)"

text \<open>
  The files of which section 8 speaks: every row has one cell for each column, of the kind
  of the column (section 3), and every string cell holds scalar values only, which are the
  code points that UTF-8 encodes.
\<close>

definition kindAgrees :: "MbeColumn \<Rightarrow> cell \<Rightarrow> bool" where
  "kindAgrees column v = (case v of Num n \<Rightarrow> type column = INT' | Str t \<Rightarrow> type column \<noteq> INT')"

definition encodableCell :: "cell \<Rightarrow> bool" where
  "encodableCell v = (case v of Num n \<Rightarrow> True | Str t \<Rightarrow> list_all isScalar t)"

definition satisfiesInvariants :: "MbeFile \<Rightarrow> bool" where
  "satisfiesInvariants F =
     list_all (\<lambda>sheet. list_all columnOK (columns sheet)
                 \<and> list_all (\<lambda>row. list_all2 kindAgrees (columns sheet) (cells row)) (rows sheet))
       (sheets F)"

definition stringsEncodable :: "MbeFile \<Rightarrow> bool" where
  "stringsEncodable F =
     list_all (\<lambda>sheet. list_all (\<lambda>row. list_all encodableCell (cells row)) (rows sheet)) (sheets F)"

lemma sameSheetContent_equivalentSheet: "sameSheetContent s t \<Longrightarrow> equivalentSheet s t"
  by (simp add: sameSheetContent_def equivalentSheet_def sameKind_def list_all2_same)

lemma sameContent_equivalentFile: "sameContent G F \<Longrightarrow> equivalentFile G F"
  unfolding sameContent_def equivalentFile_def
  by (erule list_all2_mono) (rule sameSheetContent_equivalentSheet)

text \<open>
  Claim C1, as amended. Let every sheet of \<open>F\<close> have a name of scalar values other than
  U+0000, columns whose \<^verbatim>\<open>typeName\<close> is the label of their type, fewer than \<open>2\<^sup>3\<^sup>2\<close> rows, and
  rows with one cell for each column: under an INT column an integer of the 32-bit signed
  range, under a STR or STRID column a string of scalar values other than U+0000. If the
  generated buffer is shorter than \<open>2\<^sup>3\<^sup>1\<close> bytes, the parser returns a file for it, and this
  file has the names, the columns and the cells of \<open>F\<close>; so it is equivalent to \<open>F\<close>.
\<close>

theorem round_trip:
  assumes "list_all sheetOK (sheets F)" and "length (generateMbeFile strNum F) < 2147483648"
  shows "\<exists>G ws. parseMbeFile now (generateMbeFile strNum F) = Inr (G, ws)
           \<and> sameContent G F \<and> equivalentFile G F"
  using generated_round_trip [OF assms, of now] sameContent_equivalentFile by blast

text \<open>The example file with the string \<^verbatim>\<open>"a\0b"\<close> in place of \<^verbatim>\<open>"hi"\<close>, and the file that is
  read back: the string ends at U+0000.\<close>

definition nulFile :: MbeFile where
  "nulFile =
     \<lparr>sheets = [\<lparr>name = ascii ''m'',
                 columns = [\<lparr>type = INT', typeName = TN_int\<rparr>,
                            \<lparr>type = STRID', typeName = TN_strID\<rparr>],
                 rows = [\<lparr>id' = ascii ''row-0-0-17'', cells = [Num 7, Str [0x61, 0, 0x62]]\<rparr>],
                 parsedExpaAreaSizePerRow = 12\<rparr>]\<rparr>"

definition nulBytes :: "byte list" where
  "nulBytes =
     [0x45, 0x58, 0x50, 0x41, 1, 0, 0, 0,
      4, 0, 0, 0, 0x6D, 0, 0, 0, 2, 0, 0, 0, 2, 0, 0, 0, 8, 0, 0, 0, 12, 0, 0, 0, 1, 0, 0, 0,
      7, 0, 0, 0, 0, 0, 0, 0, 0, 0, 0, 0,
      0x43, 0x48, 0x4E, 0x4B, 1, 0, 0, 0,
      40, 0, 0, 0, 8, 0, 0, 0, 0x61, 0, 0x62, 0, 0, 0, 0, 0]"

definition nulParsed :: MbeFile where
  "nulParsed =
     \<lparr>sheets = [\<lparr>name = ascii ''m'',
                 columns = [\<lparr>type = INT', typeName = TN_int\<rparr>,
                            \<lparr>type = STRID', typeName = TN_strID\<rparr>],
                 rows = [\<lparr>id' = ascii ''row-0-0-17'', cells = [Num 7, Str [0x61]]\<rparr>],
                 parsedExpaAreaSizePerRow = 12\<rparr>]\<rparr>"

lemma nulFile_bytes: "generateMbeFile exampleStrNum nulFile = nulBytes"
  by (simp add: nulFile_def nulBytes_def exampleStrNum_def generator_defs)

lemma nulBytes_parsed: "parseMbeFile exampleNow nulBytes = Inr (nulParsed, [])"
  by (simp add: nulBytes_def nulParsed_def parseMbeFile_def parser_defs ascii_def digits.simps
      exampleNow_def checkMagic_EXPA utf8_decode.simps)

theorem round_trip_counterexample:
  "satisfiesInvariants nulFile \<and> stringsEncodable nulFile
   \<and> parseMbeFile exampleNow (generateMbeFile exampleStrNum nulFile) = Inr (nulParsed, [])
   \<and> \<not> equivalentFile nulParsed nulFile"
proof -
  have "satisfiesInvariants nulFile"
    by (simp add: satisfiesInvariants_def nulFile_def columnOK_def kindAgrees_def)
  moreover have "stringsEncodable nulFile"
    by (simp add: stringsEncodable_def nulFile_def encodableCell_def isScalar_def isSurrogate_def)
  moreover have "parseMbeFile exampleNow (generateMbeFile exampleStrNum nulFile) = Inr (nulParsed, [])"
    by (simp only: nulFile_bytes nulBytes_parsed)
  moreover have "\<not> equivalentFile nulParsed nulFile"
    by (simp add: equivalentFile_def equivalentSheet_def nulParsed_def nulFile_def)
  ultimately show ?thesis by blast
qed

theorem round_trip_witness:
  "list_all sheetOK (sheets exampleFile)
   \<and> length (generateMbeFile exampleStrNum exampleFile) < 2147483648
   \<and> (\<exists>G ws. parseMbeFile exampleNow (generateMbeFile exampleStrNum exampleFile) = Inr (G, ws)
         \<and> sameContent G exampleFile \<and> equivalentFile G exampleFile)"
proof -
  have ok: "list_all sheetOK (sheets exampleFile)"
    by (simp add: exampleFile_def sheetOK_def sheetHeaderOK_def okString_def columnOK_def
        cellOK_def isScalar_def isSurrogate_def ascii_def)
  have small: "length (generateMbeFile exampleStrNum exampleFile) < 2147483648"
    by (simp add: exampleFile_bytes exampleBytes_def)
  from round_trip [OF ok small, of exampleNow] ok small show ?thesis
    by blast
qed

end
